theory Spec2Isabelle
  imports Complex_Main
begin

section \<open>Stochastically excited, damped oscillation modes\<close>

text \<open>
  A shallow embedding of \<^verbatim>\<open>solarosc(time, freq, ampl, eta)\<close> from
  \<^verbatim>\<open>asteroseismology/solarosc.py\<close>.

  Conventions of the embedding.
  \<^item> The four arguments are one-dimensional float arrays; they are lists of reals here.
    Arithmetic is exact real arithmetic: the rounding of 64-bit floats is not modelled.
    Where the float computation would produce an infinity or a NaN (a division of
    \<^verbatim>\<open>1.0\<close> by a zero entry of \<^verbatim>\<open>eta\<close>, the square root of a negative number)
    the model stops with the outcome \<open>NonFinite\<close> and follows the program no further.
  \<^item> The process-wide random generator is an explicit generator state of type \<open>'g\<close>
    threaded through every draw. \<open>gauss\<close> is the generator's standard normal draw and
    \<open>rand\<close> its draw from the half-open unit interval; both return the value and the
    next generator state.
  \<^item> An exception of the program is a value \<open>Inl e\<close>; a loop that may run forever
    returns an \<open>option\<close>, and \<open>None\<close> says that it does not return.
  \<^item> The \<^verbatim>\<open>print\<close> calls produce no value and are left out.
\<close>

subsection \<open>Values, exceptions and array primitives\<close>

datatype failure = ValueError | IndexError | TypeError | NonFinite | OverflowError

text \<open>
  \<^verbatim>\<open>amplsin\<close> and \<^verbatim>\<open>amplcos\<close> start as the Python float \<^verbatim>\<open>0.0\<close> and become
  arrays only by broadcasting in the warm-up loop.
\<close>

datatype nd = Scalar real | Array "real list"

definition bindE :: "failure + 'a \<Rightarrow> ('a \<Rightarrow> failure + 'b) \<Rightarrow> failure + 'b" where
  "bindE r f = (case r of Inl e \<Rightarrow> Inl e | Inr x \<Rightarrow> f x)"

text \<open>\<^verbatim>\<open>xs[i]\<close> for a non-negative index: out of range raises.\<close>

definition getitem :: "'a list \<Rightarrow> nat \<Rightarrow> failure + 'a" where
  "getitem xs i = (if i < length xs then Inr (xs ! i) else Inl IndexError)"

text \<open>\<^verbatim>\<open>xs[i] = v\<close> for a non-negative index.\<close>

definition setitem :: "'a list \<Rightarrow> nat \<Rightarrow> 'a \<Rightarrow> failure + 'a list" where
  "setitem xs i v = (if i < length xs then Inr (xs[i := v]) else Inl IndexError)"

text \<open>Subscripting a Python float raises \<^verbatim>\<open>TypeError\<close>.\<close>

definition nd_getitem :: "nd \<Rightarrow> nat \<Rightarrow> failure + real" where
  "nd_getitem a i = (case a of Scalar x \<Rightarrow> Inl TypeError | Array xs \<Rightarrow> getitem xs i)"

definition nd_setitem :: "nd \<Rightarrow> nat \<Rightarrow> real \<Rightarrow> failure + nd" where
  "nd_setitem a i v =
     (case a of Scalar x \<Rightarrow> Inl TypeError
      | Array xs \<Rightarrow> bindE (setitem xs i v) (\<lambda>ys. Inr (Array ys)))"

text \<open>
  An elementwise binary operation on two one-dimensional arrays, with numpy's
  broadcasting: equal lengths, or one operand of length one; anything else raises
  \<^verbatim>\<open>ValueError\<close>.
\<close>

definition broadcast2 :: "('a \<Rightarrow> 'b \<Rightarrow> 'c) \<Rightarrow> 'a list \<Rightarrow> 'b list \<Rightarrow> failure + 'c list" where
  "broadcast2 f xs ys =
     (if length xs = length ys then Inr (map2 f xs ys)
      else if length xs = 1 then Inr (map (f (hd xs)) ys)
      else if length ys = 1 then Inr (map (\<lambda>x. f x (hd ys)) xs)
      else Inl ValueError)"

text \<open>\<^verbatim>\<open>damp * a\<close> where \<^verbatim>\<open>damp\<close> is an array and \<^verbatim>\<open>a\<close> a float or an array.\<close>

definition mul_damp :: "real list \<Rightarrow> nd \<Rightarrow> failure + real list" where
  "mul_damp damp a =
     (case a of Scalar x \<Rightarrow> Inr (map (\<lambda>d. d * x) damp)
      | Array xs \<Rightarrow> broadcast2 (*) damp xs)"

text \<open>The builtins \<^verbatim>\<open>max\<close> and \<^verbatim>\<open>min\<close> on a sequence: empty raises \<^verbatim>\<open>ValueError\<close>.\<close>

definition py_max :: "real list \<Rightarrow> failure + real" where
  "py_max xs = (case xs of [] \<Rightarrow> Inl ValueError | x # r \<Rightarrow> Inr (fold max r x))"

definition py_min :: "real list \<Rightarrow> failure + real" where
  "py_min xs = (case xs of [] \<Rightarrow> Inl ValueError | x # r \<Rightarrow> Inr (fold min r x))"

subsection \<open>Random draws\<close>

text \<open>A draw takes the generator state and returns the value drawn and the next state.\<close>

type_synonym 'g draw = "'g \<Rightarrow> real \<times> 'g"

text \<open>
  \<^verbatim>\<open>normal(loc, scale)\<close> on arrays: a negative scale raises \<^verbatim>\<open>ValueError\<close>, the two
  arrays are broadcast, and each element is \<^verbatim>\<open>loc + scale * z\<close> for a fresh standard
  normal draw \<^verbatim>\<open>z\<close>, in index order.
\<close>

fun draw_each :: "'g draw \<Rightarrow> (real \<times> real) list \<Rightarrow> 'g \<Rightarrow> real list \<times> 'g" where
  "draw_each gauss [] g = ([], g)"
| "draw_each gauss ((l, s) # ps) g =
     (let (z, g1) = gauss g; (rs, g2) = draw_each gauss ps g1 in ((l + s * z) # rs, g2))"

definition normal :: "'g draw \<Rightarrow> real list \<Rightarrow> real list \<Rightarrow> 'g \<Rightarrow> failure + (real list \<times> 'g)" where
  "normal gauss loc scale g =
     (if \<exists>s\<in>set scale. s < 0 then Inl ValueError
      else bindE (broadcast2 Pair loc scale) (\<lambda>ps. Inr (draw_each gauss ps g)))"

text \<open>The scalar call \<^verbatim>\<open>normal(0., 1.)\<close>.\<close>

definition normal01 :: "'g draw \<Rightarrow> 'g \<Rightarrow> real \<times> 'g" where
  "normal01 gauss g = (let (z, g1) = gauss g in (0 + 1 * z, g1))"

text \<open>
  \<^verbatim>\<open>uniform(low, high, size)\<close> with scalar bounds: \<^verbatim>\<open>size\<close> values
  \<^verbatim>\<open>low + (high - low) * u\<close>, in index order.
\<close>

fun uniform :: "'g draw \<Rightarrow> real \<Rightarrow> real \<Rightarrow> nat \<Rightarrow> 'g \<Rightarrow> real list \<times> 'g" where
  "uniform rand low high 0 g = ([], g)"
| "uniform rand low high (Suc n) g =
     (let (u, g1) = rand g; (rs, g2) = uniform rand low high n g1
      in ((low + (high - low) * u) # rs, g2))"

subsection \<open>Stage 1: the kick timestep and the kick amplitudes (lines 86 to 97)\<close>

definition derive_params :: "real list \<Rightarrow> real list \<Rightarrow> failure + (real \<times> real list)" where
  "derive_params ampl eta =
     bindE (py_max eta) (\<lambda>mx.
       if mx = 0 then Inl NonFinite
       else
         let kicktimestep = (1 / mx) / 100 in
         if \<exists>e\<in>set eta. kicktimestep * e < 0 then Inl NonFinite
         else
           bindE (broadcast2 (*) ampl (map (\<lambda>e. sqrt (kicktimestep * e)) eta))
             (\<lambda>kick_amplitude. Inr (kicktimestep, kick_amplitude)))"

subsection \<open>Stage 2: the warm-up (lines 104 to 112)\<close>

definition Nwarmup :: "real list \<Rightarrow> real \<Rightarrow> failure + int" where
  "Nwarmup eta kicktimestep =
     bindE (py_min eta) (\<lambda>mn.
       if mn = 0 \<or> kicktimestep = 0 then Inl NonFinite
       else Inr (min 20000 \<lfloor>1 / mn / kicktimestep\<rfloor>))"

text \<open>One pass through the body of the warm-up loop (lines 111 and 112).\<close>

definition warmup_step ::
  "'g draw \<Rightarrow> nat \<Rightarrow> real list \<Rightarrow> real list \<Rightarrow> nd \<times> nd \<times> 'g \<Rightarrow> failure + (nd \<times> nd \<times> 'g)" where
  "warmup_step gauss Nmode damp kick_amplitude st =
     (case st of (amplsin, amplcos, g) \<Rightarrow>
        bindE (mul_damp damp amplsin) (\<lambda>ds.
        bindE (normal gauss (replicate Nmode 0) kick_amplitude g) (\<lambda>(ns, g1).
        bindE (broadcast2 (+) ds ns) (\<lambda>amplsin'.
        bindE (mul_damp damp amplcos) (\<lambda>dc.
        bindE (normal gauss (replicate Nmode 0) kick_amplitude g1) (\<lambda>(nc, g2).
        bindE (broadcast2 (+) dc nc) (\<lambda>amplcos'.
        Inr (Array amplsin', Array amplcos', g2))))))))"

fun warmup_loop ::
  "'g draw \<Rightarrow> nat \<Rightarrow> real list \<Rightarrow> real list \<Rightarrow> nat \<Rightarrow> nd \<times> nd \<times> 'g \<Rightarrow> failure + (nd \<times> nd \<times> 'g)" where
  "warmup_loop gauss Nmode damp kick_amplitude 0 st = Inr st"
| "warmup_loop gauss Nmode damp kick_amplitude (Suc n) st =
     bindE (warmup_step gauss Nmode damp kick_amplitude st)
       (warmup_loop gauss Nmode damp kick_amplitude n)"

definition warmup ::
  "'g draw \<Rightarrow> nat \<Rightarrow> real list \<Rightarrow> real \<Rightarrow> real list \<Rightarrow> 'g \<Rightarrow> failure + (nd \<times> nd \<times> 'g)" where
  "warmup gauss Nmode eta kicktimestep kick_amplitude g =
     (let damp = map (\<lambda>e. exp (- e * kicktimestep)) eta in
      bindE (Nwarmup eta kicktimestep) (\<lambda>n.
        warmup_loop gauss Nmode damp kick_amplitude (nat n) (Scalar 0, Scalar 0, g)))"

subsection \<open>Stage 3: the kick schedule (lines 119 and 120)\<close>

definition init_kicks ::
  "'g draw \<Rightarrow> real list \<Rightarrow> real \<Rightarrow> nat \<Rightarrow> 'g \<Rightarrow> failure + (real list \<times> real list \<times> 'g)" where
  "init_kicks rand time kicktimestep Nmode g =
     bindE (getitem time 0) (\<lambda>t0.
       let (last_kicktime, g1) = uniform rand (t0 - kicktimestep) t0 Nmode g
       in Inr (last_kicktime, map (\<lambda>l. l + kicktimestep) last_kicktime, g1))"

subsection \<open>Stage 4: the main pass (lines 128 to 152)\<close>

record 'g sim =
  amplsin :: nd
  amplcos :: nd
  last_kicktime :: "real list"
  next_kicktime :: "real list"
  signal :: "real list"
  gen :: 'g

text \<open>The body of the pending-kick loop, lines 140 to 145, for mode \<open>i\<close>.\<close>

definition kick ::
  "'g draw \<Rightarrow> real \<Rightarrow> real list \<Rightarrow> real list \<Rightarrow> nat \<Rightarrow> 'g sim \<Rightarrow> failure + 'g sim" where
  "kick gauss kicktimestep eta kick_amplitude i s =
     bindE (getitem (next_kicktime s) i) (\<lambda>nk.
     bindE (getitem (last_kicktime s) i) (\<lambda>lk.
     let deltatime = nk - lk in
     bindE (getitem eta i) (\<lambda>eta_i.
     let damp = exp (- eta_i * deltatime) in
     bindE (nd_getitem (amplsin s) i) (\<lambda>as.
     bindE (getitem kick_amplitude i) (\<lambda>ka.
     let (z1, g1) = normal01 gauss (gen s) in
     bindE (nd_setitem (amplsin s) i (damp * as + ka * z1)) (\<lambda>amplsin'.
     bindE (nd_getitem (amplcos s) i) (\<lambda>ac.
     let (z2, g2) = normal01 gauss g1 in
     bindE (nd_setitem (amplcos s) i (damp * ac + ka * z2)) (\<lambda>amplcos'.
     bindE (setitem (last_kicktime s) i nk) (\<lambda>last_kicktime'.
     bindE (setitem (next_kicktime s) i (nk + kicktimestep)) (\<lambda>next_kicktime'.
     Inr (s\<lparr>amplsin := amplsin', amplcos := amplcos',
             last_kicktime := last_kicktime', next_kicktime := next_kicktime',
             gen := g2\<rparr>)))))))))))"

text \<open>
  The loop \<^verbatim>\<open>while (next_kicktime[i] <= time[j])\<close> of line 138, with \<open>t\<close> the value
  of \<^verbatim>\<open>time[j]\<close>. \<open>None\<close>: the loop does not return.
\<close>

partial_function (option) kick_loop ::
  "'g draw \<Rightarrow> real \<Rightarrow> real list \<Rightarrow> real list \<Rightarrow> real \<Rightarrow> nat \<Rightarrow> 'g sim \<Rightarrow> (failure + 'g sim) option" where
  "kick_loop gauss kicktimestep eta kick_amplitude t i s =
     (case getitem (next_kicktime s) i of
        Inl e \<Rightarrow> Some (Inl e)
      | Inr nk \<Rightarrow>
          if nk \<le> t then
            (case kick gauss kicktimestep eta kick_amplitude i s of
               Inl e \<Rightarrow> Some (Inl e)
             | Inr s' \<Rightarrow> kick_loop gauss kicktimestep eta kick_amplitude t i s')
          else Some (Inr s))"

text \<open>
  The last small step to \<^verbatim>\<open>time[j]\<close>, lines 149 to 152, for mode \<open>i\<close> at output
  index \<open>j\<close>.
\<close>

definition sample ::
  "real list \<Rightarrow> real list \<Rightarrow> real list \<Rightarrow> nat \<Rightarrow> nat \<Rightarrow> 'g sim \<Rightarrow> failure + 'g sim" where
  "sample time freq eta j i s =
     bindE (getitem time j) (\<lambda>t.
     bindE (getitem (last_kicktime s) i) (\<lambda>lk.
     let deltatime = t - lk in
     bindE (getitem eta i) (\<lambda>eta_i.
     let damp = exp (- eta_i * deltatime) in
     bindE (getitem (signal s) j) (\<lambda>sj.
     bindE (nd_getitem (amplsin s) i) (\<lambda>as.
     bindE (getitem freq i) (\<lambda>f.
     bindE (nd_getitem (amplcos s) i) (\<lambda>ac.
     bindE (setitem (signal s) j
              (sj + damp * (as * sin (2 * pi * f * t) + ac * cos (2 * pi * f * t))))
       (\<lambda>signal'. Inr (s\<lparr>signal := signal'\<rparr>)))))))))"

text \<open>The body of the loop over the modes, lines 138 to 152.\<close>

definition mode_step ::
  "'g draw \<Rightarrow> real \<Rightarrow> real list \<Rightarrow> real list \<Rightarrow> real list \<Rightarrow> real list \<Rightarrow> nat \<Rightarrow> nat \<Rightarrow> 'g sim
     \<Rightarrow> (failure + 'g sim) option" where
  "mode_step gauss kicktimestep time freq eta kick_amplitude j i s =
     (case getitem time j of
        Inl e \<Rightarrow> Some (Inl e)
      | Inr t \<Rightarrow>
          (case kick_loop gauss kicktimestep eta kick_amplitude t i s of
             None \<Rightarrow> None
           | Some (Inl e) \<Rightarrow> Some (Inl e)
           | Some (Inr s') \<Rightarrow> Some (sample time freq eta j i s')))"

text \<open>\<^verbatim>\<open>for i in range(Nmode)\<close>, over the indices still to do.\<close>

fun modes_loop ::
  "'g draw \<Rightarrow> real \<Rightarrow> real list \<Rightarrow> real list \<Rightarrow> real list \<Rightarrow> real list \<Rightarrow> nat \<Rightarrow> nat list \<Rightarrow> 'g sim
     \<Rightarrow> (failure + 'g sim) option" where
  "modes_loop gauss kicktimestep time freq eta kick_amplitude j [] s = Some (Inr s)"
| "modes_loop gauss kicktimestep time freq eta kick_amplitude j (i # is) s =
     (case mode_step gauss kicktimestep time freq eta kick_amplitude j i s of
        None \<Rightarrow> None
      | Some (Inl e) \<Rightarrow> Some (Inl e)
      | Some (Inr s') \<Rightarrow> modes_loop gauss kicktimestep time freq eta kick_amplitude j is s')"

text \<open>\<^verbatim>\<open>for j in range(Ntime)\<close>, over the indices still to do.\<close>

fun time_loop ::
  "'g draw \<Rightarrow> real \<Rightarrow> real list \<Rightarrow> real list \<Rightarrow> real list \<Rightarrow> real list \<Rightarrow> nat list \<Rightarrow> 'g sim
     \<Rightarrow> (failure + 'g sim) option" where
  "time_loop gauss kicktimestep time freq eta kick_amplitude [] s = Some (Inr s)"
| "time_loop gauss kicktimestep time freq eta kick_amplitude (j # js) s =
     (case modes_loop gauss kicktimestep time freq eta kick_amplitude j [0..<length freq] s of
        None \<Rightarrow> None
      | Some (Inl e) \<Rightarrow> Some (Inl e)
      | Some (Inr s') \<Rightarrow> time_loop gauss kicktimestep time freq eta kick_amplitude js s')"

subsection \<open>The whole function\<close>

text \<open>
  Everything before the main pass: stages 1 to 3 and \<^verbatim>\<open>signal = np.zeros(Ntime)\<close>.
  The result is the kick timestep, the kick amplitudes and the state the main pass
  starts from.
\<close>

definition prepare ::
  "'g draw \<Rightarrow> 'g draw \<Rightarrow> 'g \<Rightarrow> real list \<Rightarrow> real list \<Rightarrow> real list \<Rightarrow> real list
     \<Rightarrow> failure + (real \<times> real list \<times> 'g sim)" where
  "prepare gauss rand g time freq ampl eta =
     (let Ntime = length time; Nmode = length freq in
      bindE (derive_params ampl eta) (\<lambda>(kicktimestep, kick_amplitude).
      bindE (warmup gauss Nmode eta kicktimestep kick_amplitude g) (\<lambda>(as, ac, g1).
      bindE (init_kicks rand time kicktimestep Nmode g1) (\<lambda>(lk, nk, g2).
      Inr (kicktimestep, kick_amplitude,
           \<lparr>amplsin = as, amplcos = ac, last_kicktime = lk, next_kicktime = nk,
            signal = replicate Ntime 0, gen = g2\<rparr>)))))"

definition solarosc ::
  "'g draw \<Rightarrow> 'g draw \<Rightarrow> 'g \<Rightarrow> real list \<Rightarrow> real list \<Rightarrow> real list \<Rightarrow> real list
     \<Rightarrow> (failure + real list) option" where
  "solarosc gauss rand g time freq ampl eta =
     (case prepare gauss rand g time freq ampl eta of
        Inl e \<Rightarrow> Some (Inl e)
      | Inr (kicktimestep, kick_amplitude, s0) \<Rightarrow>
          (case time_loop gauss kicktimestep time freq eta kick_amplitude [0..<length time] s0 of
             None \<Rightarrow> None
           | Some (Inl e) \<Rightarrow> Some (Inl e)
           | Some (Inr s) \<Rightarrow> Some (Inr (signal s))))"

section \<open>The program on binary64 floats\<close>

text \<open>
  The model above computes with exact reals. The program computes with IEEE 754 binary64
  numbers, and several of its properties depend on the rounding. This second model follows
  the same source lines with binary64 arithmetic: every operation rounds to nearest, ties
  to even; a division by zero gives an infinity; an invalid operation gives a NaN; zeros
  are signed. Its names carry the suffix \<open>64\<close>.
\<close>

subsection \<open>Binary64 numbers\<close>

text \<open>
  A finite number is a sign bit (\<open>True\<close> for negative) and a magnitude; an infinity has a
  sign bit.
\<close>

datatype f64 = Fin bool real | Infty bool | NaN

definition val :: "f64 \<Rightarrow> real" where
  "val x = (case x of Fin s m \<Rightarrow> (if s then - m else m) | Infty s \<Rightarrow> 0 | NaN \<Rightarrow> 0)"

definition signbit :: "f64 \<Rightarrow> bool" where
  "signbit x = (case x of Fin s m \<Rightarrow> s | Infty s \<Rightarrow> s | NaN \<Rightarrow> False)"

definition isnan :: "f64 \<Rightarrow> bool" where
  "isnan x = (case x of NaN \<Rightarrow> True | _ \<Rightarrow> False)"

definition isfinite :: "f64 \<Rightarrow> bool" where
  "isfinite x = (case x of Fin s m \<Rightarrow> True | _ \<Rightarrow> False)"

text \<open>
  The spacing of the binary64 numbers around a positive magnitude: 52 fraction bits, and
  the exponent not below \<open>-1022\<close>, where the subnormal numbers start.
\<close>

definition quantum :: "real \<Rightarrow> real" where
  "quantum a = 2 powr (of_int (max \<lfloor>log 2 a\<rfloor> (- 1022)) - 52)"

text \<open>The nearest integer, a tie going to the even one.\<close>

definition round_even :: "real \<Rightarrow> int" where
  "round_even x =
     (let n = \<lfloor>x\<rfloor>; r = x - of_int n
      in if r < 1 / 2 then n else if 1 / 2 < r then n + 1 else if even n then n else n + 1)"

text \<open>A magnitude rounded to the nearest multiple of the spacing around it.\<close>

definition rnd_mag :: "real \<Rightarrow> real" where
  "rnd_mag a = (if a = 0 then 0 else of_int (round_even (a / quantum a)) * quantum a)"

text \<open>
  The binary64 number for an exact result with sign bit \<open>s\<close> and magnitude \<open>a\<close>:
  rounded, and an infinity if the rounded magnitude reaches \<open>2 ^ 1024\<close>.
\<close>

definition mk :: "bool \<Rightarrow> real \<Rightarrow> f64" where
  "mk s a = (let m = rnd_mag a in if 2 ^ 1024 \<le> m then Infty s else Fin s m)"

text \<open>The binary64 number for a real: its sign and its rounded magnitude.\<close>

definition of_real64 :: "real \<Rightarrow> f64" where
  "of_real64 r = mk (r < 0) \<bar>r\<bar>"

definition fneg :: "f64 \<Rightarrow> f64" where
  "fneg x = (case x of Fin s m \<Rightarrow> Fin (\<not> s) m | Infty s \<Rightarrow> Infty (\<not> s) | NaN \<Rightarrow> NaN)"

text \<open>
  Addition. An exact sum of zero has the sign bit only if both operands have it;
  infinities of opposite sign give a NaN.
\<close>

fun fadd :: "f64 \<Rightarrow> f64 \<Rightarrow> f64" where
  "fadd NaN y = NaN"
| "fadd x NaN = NaN"
| "fadd (Infty s) (Infty t) = (if s = t then Infty s else NaN)"
| "fadd (Infty s) (Fin t b) = Infty s"
| "fadd (Fin s a) (Infty t) = Infty t"
| "fadd (Fin s a) (Fin t b) =
     (let r = val (Fin s a) + val (Fin t b)
      in if r = 0 then Fin (s \<and> t) 0 else of_real64 r)"

definition fsub :: "f64 \<Rightarrow> f64 \<Rightarrow> f64" where
  "fsub x y = fadd x (fneg y)"

text \<open>Multiplication: the sign bits are combined; zero times an infinity is a NaN.\<close>

fun fmul :: "f64 \<Rightarrow> f64 \<Rightarrow> f64" where
  "fmul NaN y = NaN"
| "fmul x NaN = NaN"
| "fmul (Infty s) (Infty t) = Infty (s \<noteq> t)"
| "fmul (Infty s) (Fin t b) = (if b = 0 then NaN else Infty (s \<noteq> t))"
| "fmul (Fin s a) (Infty t) = (if a = 0 then NaN else Infty (s \<noteq> t))"
| "fmul (Fin s a) (Fin t b) = mk (s \<noteq> t) (a * b)"

text \<open>
  Division as numpy does it for binary64 scalars and arrays: dividing by a zero gives an
  infinity (a warning, not an exception), and \<open>0 / 0\<close> and an infinity by an infinity
  give a NaN.
\<close>

fun fdiv :: "f64 \<Rightarrow> f64 \<Rightarrow> f64" where
  "fdiv NaN y = NaN"
| "fdiv x NaN = NaN"
| "fdiv (Infty s) (Infty t) = NaN"
| "fdiv (Infty s) (Fin t b) = Infty (s \<noteq> t)"
| "fdiv (Fin s a) (Infty t) = Fin (s \<noteq> t) 0"
| "fdiv (Fin s a) (Fin t b) =
     (if b = 0 then (if a = 0 then NaN else Infty (s \<noteq> t)) else mk (s \<noteq> t) (a / b))"

text \<open>The square root is correctly rounded; of a negative number it is a NaN.\<close>

definition fsqrt :: "f64 \<Rightarrow> f64" where
  "fsqrt x =
     (case x of
        NaN \<Rightarrow> NaN
      | Infty s \<Rightarrow> (if s then NaN else Infty False)
      | Fin s m \<Rightarrow> (if m = 0 then Fin s 0 else if s then NaN else mk False (sqrt m)))"

text \<open>The comparisons \<^verbatim>\<open><=\<close> and \<^verbatim>\<open><\<close>: false as soon as one side is a NaN.\<close>

fun fle :: "f64 \<Rightarrow> f64 \<Rightarrow> bool" where
  "fle NaN y = False"
| "fle x NaN = False"
| "fle (Infty s) (Infty t) = (s \<or> \<not> t)"
| "fle (Infty s) (Fin t b) = s"
| "fle (Fin s a) (Infty t) = (\<not> t)"
| "fle (Fin s a) (Fin t b) = (val (Fin s a) \<le> val (Fin t b))"

fun flt :: "f64 \<Rightarrow> f64 \<Rightarrow> bool" where
  "flt NaN y = False"
| "flt x NaN = False"
| "flt (Infty s) (Infty t) = (s \<and> \<not> t)"
| "flt (Infty s) (Fin t b) = s"
| "flt (Fin s a) (Infty t) = (\<not> t)"
| "flt (Fin s a) (Fin t b) = (val (Fin s a) < val (Fin t b))"

text \<open>
  \<^verbatim>\<open>int(floor(x))\<close> with \<^verbatim>\<open>math.floor\<close>: a NaN raises \<^verbatim>\<open>ValueError\<close>, an infinity
  \<^verbatim>\<open>OverflowError\<close>.
\<close>

definition py_floor :: "f64 \<Rightarrow> failure + int" where
  "py_floor x =
     (case x of NaN \<Rightarrow> Inl ValueError | Infty s \<Rightarrow> Inl OverflowError | Fin s m \<Rightarrow> Inr \<lfloor>val (Fin s m)\<rfloor>)"

text \<open>
  The builtins \<^verbatim>\<open>max\<close> and \<^verbatim>\<open>min\<close>: the first item is kept until a later one
  compares greater, respectively less.
\<close>

definition py_max64 :: "f64 list \<Rightarrow> failure + f64" where
  "py_max64 xs =
     (case xs of [] \<Rightarrow> Inl ValueError
      | x # r \<Rightarrow> Inr (fold (\<lambda>item acc. if flt acc item then item else acc) r x))"

definition py_min64 :: "f64 list \<Rightarrow> failure + f64" where
  "py_min64 xs =
     (case xs of [] \<Rightarrow> Inl ValueError
      | x # r \<Rightarrow> Inr (fold (\<lambda>item acc. if flt item acc then item else acc) r x))"

abbreviation zero64 :: f64 where "zero64 \<equiv> Fin False 0"
abbreviation one64 :: f64 where "one64 \<equiv> Fin False 1"
abbreviation hundred64 :: f64 where "hundred64 \<equiv> Fin False 100"

text \<open>\<^verbatim>\<open>2*pi\<close>, with \<^verbatim>\<open>math.pi\<close> the binary64 number \<open>884279719003555 / 2 ^ 48\<close>.\<close>

definition two_pi64 :: f64 where
  "two_pi64 = Fin False (2 * (884279719003555 / 2 ^ 48))"

subsection \<open>The library\<close>

text \<open>
  What the program takes from numpy and the C library and the source does not fix: the
  exponential, sine and cosine on finite arguments and NaN (their last bit depends on the
  library), and the random generator with its standard normal draw and its draw from the
  half-open unit interval.
\<close>

type_synonym 'g draw64 = "'g \<Rightarrow> f64 \<times> 'g"

record 'g lib =
  lib_exp :: "f64 \<Rightarrow> f64"
  lib_sin :: "f64 \<Rightarrow> f64"
  lib_cos :: "f64 \<Rightarrow> f64"
  lib_gauss :: "'g draw64"
  lib_rand :: "'g draw64"

text \<open>\<^verbatim>\<open>math.sin\<close> and \<^verbatim>\<open>math.cos\<close> raise \<^verbatim>\<open>ValueError\<close> on an infinity.\<close>

definition py_sin :: "'g lib \<Rightarrow> f64 \<Rightarrow> failure + f64" where
  "py_sin L x = (case x of Infty s \<Rightarrow> Inl ValueError | _ \<Rightarrow> Inr (lib_sin L x))"

definition py_cos :: "'g lib \<Rightarrow> f64 \<Rightarrow> failure + f64" where
  "py_cos L x = (case x of Infty s \<Rightarrow> Inl ValueError | _ \<Rightarrow> Inr (lib_cos L x))"

text \<open>
  \<^verbatim>\<open>normal(loc, scale)\<close> on arrays: numpy raises \<^verbatim>\<open>ValueError\<close> if some scale that is not
  a NaN has its sign bit set (so also for \<^verbatim>\<open>-0.0\<close>), broadcasts the two arrays, and
  returns \<^verbatim>\<open>loc + scale * z\<close> for a standard normal draw \<^verbatim>\<open>z\<close> per element.
\<close>

fun draw_each64 :: "'g draw64 \<Rightarrow> (f64 \<times> f64) list \<Rightarrow> 'g \<Rightarrow> f64 list \<times> 'g" where
  "draw_each64 gs [] g = ([], g)"
| "draw_each64 gs ((l, s) # ps) g =
     (let (z, g1) = gs g; (rs, g2) = draw_each64 gs ps g1 in (fadd l (fmul s z) # rs, g2))"

definition normal64 :: "'g lib \<Rightarrow> f64 list \<Rightarrow> f64 list \<Rightarrow> 'g \<Rightarrow> failure + (f64 list \<times> 'g)" where
  "normal64 L loc scale g =
     (if \<exists>s\<in>set scale. \<not> isnan s \<and> signbit s then Inl ValueError
      else bindE (broadcast2 Pair loc scale) (\<lambda>ps. Inr (draw_each64 (lib_gauss L) ps g)))"

text \<open>The scalar call \<^verbatim>\<open>normal(0., 1.)\<close>.\<close>

definition normal01_64 :: "'g lib \<Rightarrow> 'g \<Rightarrow> f64 \<times> 'g" where
  "normal01_64 L g = (let (z, g1) = lib_gauss L g in (fadd zero64 (fmul one64 z), g1))"

text \<open>
  \<^verbatim>\<open>uniform(low, high, size)\<close> with scalar bounds: numpy computes \<^verbatim>\<open>high - low\<close>, raises
  \<^verbatim>\<open>OverflowError\<close> if that is not finite, and returns \<^verbatim>\<open>low + (high - low) * u\<close> per
  element.
\<close>

fun uniform_draws64 :: "'g draw64 \<Rightarrow> f64 \<Rightarrow> f64 \<Rightarrow> nat \<Rightarrow> 'g \<Rightarrow> f64 list \<times> 'g" where
  "uniform_draws64 rd low width 0 g = ([], g)"
| "uniform_draws64 rd low width (Suc n) g =
     (let (u, g1) = rd g; (rs, g2) = uniform_draws64 rd low width n g1
      in (fadd low (fmul width u) # rs, g2))"

definition uniform64 :: "'g lib \<Rightarrow> f64 \<Rightarrow> f64 \<Rightarrow> nat \<Rightarrow> 'g \<Rightarrow> failure + (f64 list \<times> 'g)" where
  "uniform64 L low high n g =
     (let width = fsub high low
      in if \<not> isfinite width then Inl OverflowError
         else Inr (uniform_draws64 (lib_rand L) low width n g))"

subsection \<open>The four stages\<close>

datatype nd64 = Scalar64 f64 | Array64 "f64 list"

definition nd_getitem64 :: "nd64 \<Rightarrow> nat \<Rightarrow> failure + f64" where
  "nd_getitem64 a i = (case a of Scalar64 x \<Rightarrow> Inl TypeError | Array64 xs \<Rightarrow> getitem xs i)"

definition nd_setitem64 :: "nd64 \<Rightarrow> nat \<Rightarrow> f64 \<Rightarrow> failure + nd64" where
  "nd_setitem64 a i v =
     (case a of Scalar64 x \<Rightarrow> Inl TypeError
      | Array64 xs \<Rightarrow> bindE (setitem xs i v) (\<lambda>ys. Inr (Array64 ys)))"

definition mul_damp64 :: "f64 list \<Rightarrow> nd64 \<Rightarrow> failure + f64 list" where
  "mul_damp64 damp a =
     (case a of Scalar64 x \<Rightarrow> Inr (map (\<lambda>d. fmul d x) damp)
      | Array64 xs \<Rightarrow> broadcast2 fmul damp xs)"

text \<open>Lines 86 to 97. No operation of these lines raises, except \<^verbatim>\<open>max\<close> and a broadcast.\<close>

definition derive_params64 :: "f64 list \<Rightarrow> f64 list \<Rightarrow> failure + (f64 \<times> f64 list)" where
  "derive_params64 ampl eta =
     bindE (py_max64 eta) (\<lambda>mx.
       let kicktimestep = fdiv (fdiv one64 mx) hundred64 in
       bindE (broadcast2 fmul ampl (map (\<lambda>e. fsqrt (fmul kicktimestep e)) eta))
         (\<lambda>kick_amplitude. Inr (kicktimestep, kick_amplitude)))"

text \<open>Line 105.\<close>

definition Nwarmup64 :: "f64 list \<Rightarrow> f64 \<Rightarrow> failure + int" where
  "Nwarmup64 eta kicktimestep =
     bindE (py_min64 eta) (\<lambda>mn.
     bindE (py_floor (fdiv (fdiv one64 mn) kicktimestep)) (\<lambda>n. Inr (min 20000 n)))"

text \<open>Lines 111 and 112.\<close>

definition warmup_step64 ::
  "'g lib \<Rightarrow> nat \<Rightarrow> f64 list \<Rightarrow> f64 list \<Rightarrow> nd64 \<times> nd64 \<times> 'g \<Rightarrow> failure + (nd64 \<times> nd64 \<times> 'g)" where
  "warmup_step64 L Nmode damp kick_amplitude st =
     (case st of (a, b, g) \<Rightarrow>
        bindE (mul_damp64 damp a) (\<lambda>ds.
        bindE (normal64 L (replicate Nmode zero64) kick_amplitude g) (\<lambda>(ns, g1).
        bindE (broadcast2 fadd ds ns) (\<lambda>a'.
        bindE (mul_damp64 damp b) (\<lambda>dc.
        bindE (normal64 L (replicate Nmode zero64) kick_amplitude g1) (\<lambda>(nc, g2).
        bindE (broadcast2 fadd dc nc) (\<lambda>b'.
        Inr (Array64 a', Array64 b', g2))))))))"

fun warmup_loop64 ::
  "'g lib \<Rightarrow> nat \<Rightarrow> f64 list \<Rightarrow> f64 list \<Rightarrow> nat \<Rightarrow> nd64 \<times> nd64 \<times> 'g \<Rightarrow> failure + (nd64 \<times> nd64 \<times> 'g)" where
  "warmup_loop64 L Nmode damp kick_amplitude 0 st = Inr st"
| "warmup_loop64 L Nmode damp kick_amplitude (Suc n) st =
     bindE (warmup_step64 L Nmode damp kick_amplitude st)
       (warmup_loop64 L Nmode damp kick_amplitude n)"

text \<open>Lines 104 to 112.\<close>

definition warmup64 ::
  "'g lib \<Rightarrow> nat \<Rightarrow> f64 list \<Rightarrow> f64 \<Rightarrow> f64 list \<Rightarrow> 'g \<Rightarrow> failure + (nd64 \<times> nd64 \<times> 'g)" where
  "warmup64 L Nmode eta kicktimestep kick_amplitude g =
     (let damp = map (\<lambda>e. lib_exp L (fmul (fneg e) kicktimestep)) eta in
      bindE (Nwarmup64 eta kicktimestep) (\<lambda>n.
        warmup_loop64 L Nmode damp kick_amplitude (nat n) (Scalar64 zero64, Scalar64 zero64, g)))"

text \<open>Lines 119 and 120.\<close>

definition init_kicks64 ::
  "'g lib \<Rightarrow> f64 list \<Rightarrow> f64 \<Rightarrow> nat \<Rightarrow> 'g \<Rightarrow> failure + (f64 list \<times> f64 list \<times> 'g)" where
  "init_kicks64 L time kicktimestep Nmode g =
     bindE (getitem time 0) (\<lambda>t0.
     bindE (uniform64 L (fsub t0 kicktimestep) t0 Nmode g) (\<lambda>(lk, g1).
       Inr (lk, map (\<lambda>l. fadd l kicktimestep) lk, g1)))"

record 'g sim64 =
  amplsin64 :: nd64
  amplcos64 :: nd64
  last_kicktime64 :: "f64 list"
  next_kicktime64 :: "f64 list"
  signal64 :: "f64 list"
  gen64 :: 'g

text \<open>The body of the pending-kick loop, lines 140 to 145.\<close>

definition kick64 ::
  "'g lib \<Rightarrow> f64 \<Rightarrow> f64 list \<Rightarrow> f64 list \<Rightarrow> nat \<Rightarrow> 'g sim64 \<Rightarrow> failure + 'g sim64" where
  "kick64 L kicktimestep eta kick_amplitude i s =
     bindE (getitem (next_kicktime64 s) i) (\<lambda>nk.
     bindE (getitem (last_kicktime64 s) i) (\<lambda>lk.
     let deltatime = fsub nk lk in
     bindE (getitem eta i) (\<lambda>eta_i.
     let damp = lib_exp L (fmul (fneg eta_i) deltatime) in
     bindE (nd_getitem64 (amplsin64 s) i) (\<lambda>as.
     bindE (getitem kick_amplitude i) (\<lambda>ka.
     let (z1, g1) = normal01_64 L (gen64 s) in
     bindE (nd_setitem64 (amplsin64 s) i (fadd (fmul damp as) (fmul ka z1))) (\<lambda>amplsin'.
     bindE (nd_getitem64 (amplcos64 s) i) (\<lambda>ac.
     let (z2, g2) = normal01_64 L g1 in
     bindE (nd_setitem64 (amplcos64 s) i (fadd (fmul damp ac) (fmul ka z2))) (\<lambda>amplcos'.
     bindE (setitem (last_kicktime64 s) i nk) (\<lambda>last'.
     bindE (setitem (next_kicktime64 s) i (fadd nk kicktimestep)) (\<lambda>next'.
     Inr (s\<lparr>amplsin64 := amplsin', amplcos64 := amplcos',
             last_kicktime64 := last', next_kicktime64 := next', gen64 := g2\<rparr>)))))))))))"

text \<open>
  The loop of line 138, with \<open>t\<close> the value of \<^verbatim>\<open>time[j]\<close>. \<open>None\<close>: the loop does
  not return.
\<close>

partial_function (option) kick_loop64 ::
  "'g lib \<Rightarrow> f64 \<Rightarrow> f64 list \<Rightarrow> f64 list \<Rightarrow> f64 \<Rightarrow> nat \<Rightarrow> 'g sim64 \<Rightarrow> (failure + 'g sim64) option" where
  "kick_loop64 L kicktimestep eta kick_amplitude t i s =
     (case getitem (next_kicktime64 s) i of
        Inl e \<Rightarrow> Some (Inl e)
      | Inr nk \<Rightarrow>
          if fle nk t then
            (case kick64 L kicktimestep eta kick_amplitude i s of
               Inl e \<Rightarrow> Some (Inl e)
             | Inr s' \<Rightarrow> kick_loop64 L kicktimestep eta kick_amplitude t i s')
          else Some (Inr s))"

text \<open>Lines 149 to 152.\<close>

definition sample64 ::
  "'g lib \<Rightarrow> f64 list \<Rightarrow> f64 list \<Rightarrow> f64 list \<Rightarrow> nat \<Rightarrow> nat \<Rightarrow> 'g sim64 \<Rightarrow> failure + 'g sim64" where
  "sample64 L time freq eta j i s =
     bindE (getitem time j) (\<lambda>t.
     bindE (getitem (last_kicktime64 s) i) (\<lambda>lk.
     let deltatime = fsub t lk in
     bindE (getitem eta i) (\<lambda>eta_i.
     let damp = lib_exp L (fmul (fneg eta_i) deltatime) in
     bindE (getitem (signal64 s) j) (\<lambda>sj.
     bindE (nd_getitem64 (amplsin64 s) i) (\<lambda>as.
     bindE (getitem freq i) (\<lambda>f.
     bindE (py_sin L (fmul (fmul two_pi64 f) t)) (\<lambda>sn.
     bindE (nd_getitem64 (amplcos64 s) i) (\<lambda>ac.
     bindE (py_cos L (fmul (fmul two_pi64 f) t)) (\<lambda>cs.
     bindE (setitem (signal64 s) j
              (fadd sj (fmul damp (fadd (fmul as sn) (fmul ac cs)))))
       (\<lambda>signal'. Inr (s\<lparr>signal64 := signal'\<rparr>)))))))))))"

text \<open>Lines 138 to 152 for one mode.\<close>

definition mode_step64 ::
  "'g lib \<Rightarrow> f64 \<Rightarrow> f64 list \<Rightarrow> f64 list \<Rightarrow> f64 list \<Rightarrow> f64 list \<Rightarrow> nat \<Rightarrow> nat \<Rightarrow> 'g sim64
     \<Rightarrow> (failure + 'g sim64) option" where
  "mode_step64 L kicktimestep time freq eta kick_amplitude j i s =
     (case getitem time j of
        Inl e \<Rightarrow> Some (Inl e)
      | Inr t \<Rightarrow>
          (case kick_loop64 L kicktimestep eta kick_amplitude t i s of
             None \<Rightarrow> None
           | Some (Inl e) \<Rightarrow> Some (Inl e)
           | Some (Inr s') \<Rightarrow> Some (sample64 L time freq eta j i s')))"

fun modes_loop64 ::
  "'g lib \<Rightarrow> f64 \<Rightarrow> f64 list \<Rightarrow> f64 list \<Rightarrow> f64 list \<Rightarrow> f64 list \<Rightarrow> nat \<Rightarrow> nat list \<Rightarrow> 'g sim64
     \<Rightarrow> (failure + 'g sim64) option" where
  "modes_loop64 L kicktimestep time freq eta kick_amplitude j [] s = Some (Inr s)"
| "modes_loop64 L kicktimestep time freq eta kick_amplitude j (i # is) s =
     (case mode_step64 L kicktimestep time freq eta kick_amplitude j i s of
        None \<Rightarrow> None
      | Some (Inl e) \<Rightarrow> Some (Inl e)
      | Some (Inr s') \<Rightarrow> modes_loop64 L kicktimestep time freq eta kick_amplitude j is s')"

fun time_loop64 ::
  "'g lib \<Rightarrow> f64 \<Rightarrow> f64 list \<Rightarrow> f64 list \<Rightarrow> f64 list \<Rightarrow> f64 list \<Rightarrow> nat list \<Rightarrow> 'g sim64
     \<Rightarrow> (failure + 'g sim64) option" where
  "time_loop64 L kicktimestep time freq eta kick_amplitude [] s = Some (Inr s)"
| "time_loop64 L kicktimestep time freq eta kick_amplitude (j # js) s =
     (case modes_loop64 L kicktimestep time freq eta kick_amplitude j [0..<length freq] s of
        None \<Rightarrow> None
      | Some (Inl e) \<Rightarrow> Some (Inl e)
      | Some (Inr s') \<Rightarrow> time_loop64 L kicktimestep time freq eta kick_amplitude js s')"

text \<open>Everything before the main pass.\<close>

definition prepare64 ::
  "'g lib \<Rightarrow> 'g \<Rightarrow> f64 list \<Rightarrow> f64 list \<Rightarrow> f64 list \<Rightarrow> f64 list
     \<Rightarrow> failure + (f64 \<times> f64 list \<times> 'g sim64)" where
  "prepare64 L g time freq ampl eta =
     (let Ntime = length time; Nmode = length freq in
      bindE (derive_params64 ampl eta) (\<lambda>(kicktimestep, kick_amplitude).
      bindE (warmup64 L Nmode eta kicktimestep kick_amplitude g) (\<lambda>(a, b, g1).
      bindE (init_kicks64 L time kicktimestep Nmode g1) (\<lambda>(lk, nk, g2).
      Inr (kicktimestep, kick_amplitude,
           \<lparr>amplsin64 = a, amplcos64 = b, last_kicktime64 = lk, next_kicktime64 = nk,
            signal64 = replicate Ntime zero64, gen64 = g2\<rparr>)))))"

definition solarosc64 ::
  "'g lib \<Rightarrow> 'g \<Rightarrow> f64 list \<Rightarrow> f64 list \<Rightarrow> f64 list \<Rightarrow> f64 list \<Rightarrow> (failure + f64 list) option" where
  "solarosc64 L g time freq ampl eta =
     (case prepare64 L g time freq ampl eta of
        Inl e \<Rightarrow> Some (Inl e)
      | Inr (kicktimestep, kick_amplitude, s0) \<Rightarrow>
          (case time_loop64 L kicktimestep time freq eta kick_amplitude [0..<length time] s0 of
             None \<Rightarrow> None
           | Some (Inl e) \<Rightarrow> Some (Inl e)
           | Some (Inr s) \<Rightarrow> Some (Inr (signal64 s))))"

section \<open>Definitions used to state the properties\<close>

subsection \<open>The warm-up recurrence as the specification words it\<close>

text \<open>\<open>n\<close> standard normal draws, in order.\<close>

fun gauss_draws :: "'g draw \<Rightarrow> nat \<Rightarrow> 'g \<Rightarrow> real list \<times> 'g" where
  "gauss_draws gauss 0 g = ([], g)"
| "gauss_draws gauss (Suc n) g =
     (let (z, g1) = gauss g; (zs, g2) = gauss_draws gauss n g1 in (z # zs, g2))"

text \<open>
  One Gaussian value per mode, with the given mean and the mode's standard deviation,
  each from a draw of its own.
\<close>

definition spec_gaussian :: "'g draw \<Rightarrow> real \<Rightarrow> real list \<Rightarrow> 'g \<Rightarrow> real list \<times> 'g" where
  "spec_gaussian gauss mean stdev g =
     (let (zs, g1) = gauss_draws gauss (length stdev) g
      in (map (\<lambda>i. mean + stdev ! i * zs ! i) [0..<length stdev], g1))"

text \<open>
  One warm-up iteration in the specification's words: elementwise over the modes,
  \<^verbatim>\<open>amplsin = exp(-eta * kicktimestep) * amplsin + Gaussian(0, kick_amplitude)\<close>, and
  the same, with draws of its own, for \<^verbatim>\<open>amplcos\<close>.
\<close>

definition spec_warmup_step ::
  "'g draw \<Rightarrow> real list \<Rightarrow> real \<Rightarrow> real list \<Rightarrow> real list \<times> real list \<times> 'g
     \<Rightarrow> real list \<times> real list \<times> 'g" where
  "spec_warmup_step gauss eta kicktimestep kick_amplitude st =
     (case st of (a, b, g) \<Rightarrow>
        let (ns, g1) = spec_gaussian gauss 0 kick_amplitude g;
            (nc, g2) = spec_gaussian gauss 0 kick_amplitude g1
        in (map (\<lambda>i. exp (- (eta ! i) * kicktimestep) * a ! i + ns ! i) [0..<length eta],
            map (\<lambda>i. exp (- (eta ! i) * kicktimestep) * b ! i + nc ! i) [0..<length eta],
            g2))"

subsection \<open>A concrete generator\<close>

text \<open>
  A generator whose state is a counter: the normal draws alternate between \<open>1\<close> and
  \<open>-1\<close>, the uniform draws are all \<open>1/2\<close>. It instantiates the theorems below at
  concrete inputs.
\<close>

definition demo_gauss :: "nat \<Rightarrow> real \<times> nat" where
  "demo_gauss n = (if even n then 1 else - 1, Suc n)"

definition demo_rand :: "nat \<Rightarrow> real \<times> nat" where
  "demo_rand n = (1 / 2, Suc n)"

subsection \<open>Observing the main pass\<close>

text \<open>The entries of a quadrature component once it is an array.\<close>

definition nd_list :: "nd \<Rightarrow> real list" where
  "nd_list a = (case a of Scalar x \<Rightarrow> [] | Array xs \<Rightarrow> xs)"

text \<open>
  A state of the main pass is well shaped for \<open>M\<close> modes and \<open>N\<close> output times when
  both quadrature components are arrays of length \<open>M\<close>, both kick clocks have length
  \<open>M\<close> and the signal has length \<open>N\<close>.
\<close>

definition shaped :: "nat \<Rightarrow> nat \<Rightarrow> 'g sim \<Rightarrow> bool" where
  "shaped M N s \<longleftrightarrow>
     (\<exists>a. amplsin s = Array a \<and> length a = M) \<and>
     (\<exists>b. amplcos s = Array b \<and> length b = M) \<and>
     length (last_kicktime s) = M \<and> length (next_kicktime s) = M \<and>
     length (signal s) = N"

text \<open>What the state holds for mode \<open>i\<close>: its two quadrature components and its clock.\<close>

definition mode_state :: "'g sim \<Rightarrow> nat \<Rightarrow> real \<times> real \<times> real \<times> real" where
  "mode_state s i =
     (nd_list (amplsin s) ! i, nd_list (amplcos s) ! i, last_kicktime s ! i, next_kicktime s ! i)"

text \<open>
  The contribution of mode \<open>i\<close> to the signal at output index \<open>j\<close> as the specification
  words it, read off a state \<open>s\<close>: the damping from the last kick to \<^verbatim>\<open>time[j]\<close> times
  the two quadrature components with their phases.
\<close>

definition contribution :: "real list \<Rightarrow> real list \<Rightarrow> real list \<Rightarrow> nat \<Rightarrow> 'g sim \<Rightarrow> nat \<Rightarrow> real" where
  "contribution time freq eta j s i =
     exp (- (eta ! i) * (time ! j - last_kicktime s ! i)) *
       (nd_list (amplsin s) ! i * sin (2 * pi * freq ! i * time ! j) +
        nd_list (amplcos s) ! i * cos (2 * pi * freq ! i * time ! j))"

text \<open>Sequencing of two parts of the run: an exception or a loop that does not return ends it.\<close>

definition bindR :: "(failure + 'a) option \<Rightarrow> ('a \<Rightarrow> (failure + 'b) option) \<Rightarrow> (failure + 'b) option" where
  "bindR r f = (case r of None \<Rightarrow> None | Some (Inl e) \<Rightarrow> Some (Inl e) | Some (Inr x) \<Rightarrow> f x)"

text \<open>
  The state of the main pass right after the pending-kick loop of mode \<open>i\<close> at output
  index \<open>j\<close>, that is immediately before line 149: the output indices below \<open>j\<close> are
  done, then the modes below \<open>i\<close> at index \<open>j\<close>, then the loop of line 138 for mode \<open>i\<close>.
\<close>

definition state_before_sample ::
  "'g draw \<Rightarrow> real \<Rightarrow> real list \<Rightarrow> real list \<Rightarrow> real list \<Rightarrow> real list \<Rightarrow> nat \<Rightarrow> nat \<Rightarrow> 'g sim
     \<Rightarrow> (failure + 'g sim) option" where
  "state_before_sample gauss kicktimestep time freq eta kick_amplitude j i s0 =
     bindR (time_loop gauss kicktimestep time freq eta kick_amplitude [0..<j] s0) (\<lambda>s1.
     bindR (modes_loop gauss kicktimestep time freq eta kick_amplitude j [0..<i] s1) (\<lambda>s2.
     bindR (Some (getitem time j)) (\<lambda>t.
     kick_loop gauss kicktimestep eta kick_amplitude t i s2)))"

text \<open>The state of the main pass after the output indices up to and including \<open>j\<close>.\<close>

definition state_after_time ::
  "'g draw \<Rightarrow> real \<Rightarrow> real list \<Rightarrow> real list \<Rightarrow> real list \<Rightarrow> real list \<Rightarrow> nat \<Rightarrow> 'g sim
     \<Rightarrow> (failure + 'g sim) option" where
  "state_after_time gauss kicktimestep time freq eta kick_amplitude j s0 =
     time_loop gauss kicktimestep time freq eta kick_amplitude [0..<Suc j] s0"

text \<open>
  The number of kicks the loop of line 138 still has to apply to mode \<open>i\<close> before its
  next kick lies after \<open>t\<close>, for a positive kick timestep.
\<close>

definition pending :: "real \<Rightarrow> real \<Rightarrow> nat \<Rightarrow> 'g sim \<Rightarrow> nat" where
  "pending kicktimestep t i s =
     (if next_kicktime s ! i \<le> t then nat \<lfloor>(t - next_kicktime s ! i) / kicktimestep\<rfloor> + 1 else 0)"

subsection \<open>Scaling the amplitudes\<close>

text \<open>A quadrature component, and a state of the main pass, with every amplitude times \<open>c\<close>.\<close>

definition scale_nd :: "real \<Rightarrow> nd \<Rightarrow> nd" where
  "scale_nd c a = (case a of Scalar x \<Rightarrow> Scalar (c * x) | Array xs \<Rightarrow> Array (map ((*) c) xs))"

definition scale_sim :: "real \<Rightarrow> 'g sim \<Rightarrow> 'g sim" where
  "scale_sim c s =
     s\<lparr>amplsin := scale_nd c (amplsin s), amplcos := scale_nd c (amplcos s),
       signal := map ((*) c) (signal s)\<rparr>"

subsection \<open>Observing the binary64 model\<close>

definition nd_list64 :: "nd64 \<Rightarrow> f64 list" where
  "nd_list64 a = (case a of Scalar64 x \<Rightarrow> [] | Array64 xs \<Rightarrow> xs)"

definition shaped64 :: "nat \<Rightarrow> nat \<Rightarrow> 'g sim64 \<Rightarrow> bool" where
  "shaped64 M N s \<longleftrightarrow>
     (\<exists>a. amplsin64 s = Array64 a \<and> length a = M) \<and>
     (\<exists>b. amplcos64 s = Array64 b \<and> length b = M) \<and>
     length (last_kicktime64 s) = M \<and> length (next_kicktime64 s) = M \<and>
     length (signal64 s) = N"

definition mode_state64 :: "'g sim64 \<Rightarrow> nat \<Rightarrow> f64 \<times> f64 \<times> f64 \<times> f64" where
  "mode_state64 s i =
     (nd_list64 (amplsin64 s) ! i, nd_list64 (amplcos64 s) ! i,
      last_kicktime64 s ! i, next_kicktime64 s ! i)"

text \<open>
  The contribution of mode \<open>i\<close> to the signal at output index \<open>j\<close>, read off a state, with
  the operations of lines 149 to 152, each rounded.
\<close>

definition contribution64 :: "'g lib \<Rightarrow> f64 list \<Rightarrow> f64 list \<Rightarrow> f64 list \<Rightarrow> nat \<Rightarrow> 'g sim64 \<Rightarrow> nat \<Rightarrow> f64" where
  "contribution64 L time freq eta j s i =
     fmul (lib_exp L (fmul (fneg (eta ! i)) (fsub (time ! j) (last_kicktime64 s ! i))))
       (fadd (fmul (nd_list64 (amplsin64 s) ! i) (lib_sin L (fmul (fmul two_pi64 (freq ! i)) (time ! j))))
             (fmul (nd_list64 (amplcos64 s) ! i) (lib_cos L (fmul (fmul two_pi64 (freq ! i)) (time ! j)))))"

text \<open>The body of the pending-kick loop, \<open>n\<close> times in a row.\<close>

fun kicks64 ::
  "'g lib \<Rightarrow> f64 \<Rightarrow> f64 list \<Rightarrow> f64 list \<Rightarrow> nat \<Rightarrow> nat \<Rightarrow> 'g sim64 \<Rightarrow> failure + 'g sim64" where
  "kicks64 L kicktimestep eta kick_amplitude i 0 s = Inr s"
| "kicks64 L kicktimestep eta kick_amplitude i (Suc n) s =
     bindE (kick64 L kicktimestep eta kick_amplitude i s)
       (kicks64 L kicktimestep eta kick_amplitude i n)"

text \<open>
  The state of the main pass when the loop of line 138 is entered for mode \<open>i\<close> at output
  index \<open>j\<close>, the state when that loop has returned, and the state when output index \<open>j\<close>
  is done.
\<close>

definition state_before_loop64 ::
  "'g lib \<Rightarrow> f64 \<Rightarrow> f64 list \<Rightarrow> f64 list \<Rightarrow> f64 list \<Rightarrow> f64 list \<Rightarrow> nat \<Rightarrow> nat \<Rightarrow> 'g sim64
     \<Rightarrow> (failure + 'g sim64) option" where
  "state_before_loop64 L kicktimestep time freq eta kick_amplitude j i s0 =
     bindR (time_loop64 L kicktimestep time freq eta kick_amplitude [0..<j] s0)
       (modes_loop64 L kicktimestep time freq eta kick_amplitude j [0..<i])"

definition state_before_sample64 ::
  "'g lib \<Rightarrow> f64 \<Rightarrow> f64 list \<Rightarrow> f64 list \<Rightarrow> f64 list \<Rightarrow> f64 list \<Rightarrow> nat \<Rightarrow> nat \<Rightarrow> 'g sim64
     \<Rightarrow> (failure + 'g sim64) option" where
  "state_before_sample64 L kicktimestep time freq eta kick_amplitude j i s0 =
     bindR (state_before_loop64 L kicktimestep time freq eta kick_amplitude j i s0) (\<lambda>s.
     bindR (Some (getitem time j)) (\<lambda>t.
       kick_loop64 L kicktimestep eta kick_amplitude t i s))"

definition state_after_time64 ::
  "'g lib \<Rightarrow> f64 \<Rightarrow> f64 list \<Rightarrow> f64 list \<Rightarrow> f64 list \<Rightarrow> f64 list \<Rightarrow> nat \<Rightarrow> 'g sim64
     \<Rightarrow> (failure + 'g sim64) option" where
  "state_after_time64 L kicktimestep time freq eta kick_amplitude j s0 =
     time_loop64 L kicktimestep time freq eta kick_amplitude [0..<Suc j] s0"

text \<open>
  A library for closed statements: exponential, sine and cosine correctly rounded, and a
  generator whose state is a counter, with normal draws that alternate between \<open>1\<close> and
  \<open>-1\<close> and uniform draws that are all \<open>1/2\<close>.
\<close>

definition cr_exp :: "f64 \<Rightarrow> f64" where
  "cr_exp x =
     (case x of NaN \<Rightarrow> NaN | Infty s \<Rightarrow> (if s then zero64 else Infty False)
      | Fin s m \<Rightarrow> of_real64 (exp (val (Fin s m))))"

definition cr_sin :: "f64 \<Rightarrow> f64" where
  "cr_sin x = (case x of Fin s m \<Rightarrow> of_real64 (sin (val (Fin s m))) | _ \<Rightarrow> NaN)"

definition cr_cos :: "f64 \<Rightarrow> f64" where
  "cr_cos x = (case x of Fin s m \<Rightarrow> of_real64 (cos (val (Fin s m))) | _ \<Rightarrow> NaN)"

definition demo_lib :: "nat lib" where
  "demo_lib =
     \<lparr>lib_exp = cr_exp, lib_sin = cr_sin, lib_cos = cr_cos,
      lib_gauss = (\<lambda>n. (if even n then Fin False 1 else Fin True 1, Suc n)),
      lib_rand = (\<lambda>n. (Fin False (1 / 2), Suc n))\<rparr>"

text \<open>
  A positive binary64 number between \<open>2 ^ - 500\<close> and \<open>2 ^ 500\<close>: far from overflow and
  from the subnormal numbers.
\<close>

definition moderate :: "f64 \<Rightarrow> bool" where
  "moderate x = (case x of Fin s m \<Rightarrow> \<not> s \<and> 1 / 2 ^ 500 \<le> m \<and> m \<le> 2 ^ 500 | _ \<Rightarrow> False)"

section \<open>Auxiliary facts\<close>

subsection \<open>Primitives and the first two stages\<close>


lemma bindE_Inl [simp]: "bindE (Inl e) f = Inl e"
  by (simp add: bindE_def)

lemma bindE_Inr [simp]: "bindE (Inr x) f = f x"
  by (simp add: bindE_def)

lemma py_max_eq: "xs \<noteq> [] \<Longrightarrow> py_max xs = Inr (Max (set xs))"
  by (cases xs) (simp_all add: py_max_def Max.set_eq_fold [symmetric])

lemma py_min_eq: "xs \<noteq> [] \<Longrightarrow> py_min xs = Inr (Min (set xs))"
  by (cases xs) (simp_all add: py_min_def Min.set_eq_fold [symmetric])

lemma broadcast2_same: "length xs = length ys \<Longrightarrow> broadcast2 f xs ys = Inr (map2 f xs ys)"
  by (simp add: broadcast2_def)

lemma Max_pos: "xs \<noteq> [] \<Longrightarrow> \<forall>e\<in>set xs. (0::real) < e \<Longrightarrow> 0 < Max (set xs)"
  by (cases xs) (auto simp: Max_gr_iff)

lemma Min_pos: "xs \<noteq> [] \<Longrightarrow> \<forall>e\<in>set xs. (0::real) < e \<Longrightarrow> 0 < Min (set xs)"
  by simp

lemma derive_params_valid:
  assumes "eta \<noteq> []" and "\<forall>e\<in>set eta. 0 < e" and "length ampl = length eta"
  shows "derive_params ampl eta =
           Inr (1 / Max (set eta) / 100,
                map2 (*) ampl (map (\<lambda>e. sqrt (1 / Max (set eta) / 100 * e)) eta))"
proof -
  have mx: "0 < Max (set eta)" using assms(1,2) by (rule Max_pos)
  have nn: "\<not> (\<exists>e\<in>set eta. 1 / Max (set eta) / 100 * e < 0)"
  proof
    assume "\<exists>e\<in>set eta. 1 / Max (set eta) / 100 * e < 0"
    then obtain e where e: "e \<in> set eta" "1 / Max (set eta) / 100 * e < 0" by blast
    from e(1) assms(2) have "0 < e" by blast
    with mx have "0 < 1 / Max (set eta) / 100 * e" by simp
    with e(2) show False by simp
  qed
  show ?thesis
    using mx nn assms(1,3)
    by (simp add: derive_params_def py_max_eq broadcast2_same Let_def)
qed

lemma Nwarmup_valid:
  assumes "eta \<noteq> []" and "\<forall>e\<in>set eta. 0 < e"
  shows "\<exists>n. Nwarmup eta (1 / Max (set eta) / 100) = Inr n \<and> 100 \<le> n \<and> n \<le> 20000
     \<and> n = min 20000 \<lfloor>1 / (Min (set eta) * (1 / Max (set eta) / 100))\<rfloor>"
proof -
  have mx: "0 < Max (set eta)" using assms by (rule Max_pos)
  have mn: "0 < Min (set eta)" using assms by (rule Min_pos)
  have le: "Min (set eta) \<le> Max (set eta)"
    using assms(1) by (simp add: Min_le_iff)
  have q: "1 / Min (set eta) / (1 / Max (set eta) / 100) = 100 * (Max (set eta) / Min (set eta))"
    using mx mn by (simp add: field_simps)
  have "1 \<le> Max (set eta) / Min (set eta)" using le mn by simp
  then have "(100::real) \<le> 100 * (Max (set eta) / Min (set eta))" by simp
  then have "(100::int) \<le> \<lfloor>1 / Min (set eta) / (1 / Max (set eta) / 100)\<rfloor>"
    unfolding q by (simp add: le_floor_iff)
  moreover have "1 / Min (set eta) / (1 / Max (set eta) / 100) = 1 / (Min (set eta) * (1 / Max (set eta) / 100))"
    by simp
  ultimately show ?thesis
    using mx mn assms(1) by (simp add: Nwarmup_def py_min_eq del: Min_gr_iff Max_gr_iff Max_less_iff Min_less_iff)
qed

lemma length_gauss_draws [simp]: "length (fst (gauss_draws gauss n g)) = n"
  by (induction n arbitrary: g) (simp_all add: split_beta Let_def)

lemma draw_each_eq:
  "draw_each gauss ps g =
     (map (\<lambda>i. fst (ps ! i) + snd (ps ! i) * fst (gauss_draws gauss (length ps) g) ! i) [0..<length ps],
      snd (gauss_draws gauss (length ps) g))"
proof (induction ps arbitrary: g)
  case Nil
  then show ?case by simp
next
  case (Cons p ps)
  obtain l s where p: "p = (l, s)" by (cases p)
  show ?case
    by (simp add: p Cons.IH split_beta Let_def map_upt_Suc del: upt_Suc)
qed

lemma normal_eq_spec:
  assumes "length scale = M" and "\<forall>s\<in>set scale. 0 \<le> s"
  shows "normal gauss (replicate M 0) scale g = Inr (spec_gaussian gauss 0 scale g)"
proof -
  have "\<not> (\<exists>s\<in>set scale. s < 0)" using assms(2) by (auto simp: not_less)
  then show ?thesis
    using assms(1)
    by (auto simp: normal_def broadcast2_same draw_each_eq spec_gaussian_def split_beta Let_def)
qed

lemma length_spec_gaussian [simp]: "length (fst (spec_gaussian gauss m sd g)) = length sd"
  by (simp add: spec_gaussian_def split_beta Let_def)

lemma warmup_step_array:
  assumes "damp = map (\<lambda>e. exp (- e * kicktimestep)) eta" and "length eta = M" and "length kick_amplitude = M" and "\<forall>s\<in>set kick_amplitude. 0 \<le> s"
    and "length a = M" and "length b = M"
  shows "warmup_step gauss M damp kick_amplitude (Array a, Array b, g) =
           (case spec_warmup_step gauss eta kicktimestep kick_amplitude (a, b, g) of
              (a', b', g') \<Rightarrow> Inr (Array a', Array b', g'))"
  using assms
  apply (simp add: warmup_step_def mul_damp_def normal_eq_spec [where M = M] broadcast2_same
      spec_warmup_step_def split_beta Let_def)
  apply (intro conjI nth_equalityI)
     apply simp_all
  done

lemma warmup_step_scalar:
  assumes "damp = map (\<lambda>e. exp (- e * kicktimestep)) eta" and "length eta = M" and "length kick_amplitude = M" and "\<forall>s\<in>set kick_amplitude. 0 \<le> s"
  shows "warmup_step gauss M damp kick_amplitude (Scalar 0, Scalar 0, g) =
           (case spec_warmup_step gauss eta kicktimestep kick_amplitude (replicate M 0, replicate M 0, g) of
              (a', b', g') \<Rightarrow> Inr (Array a', Array b', g'))"
  using assms
  apply (simp add: warmup_step_def mul_damp_def normal_eq_spec [where M = M] broadcast2_same
      spec_warmup_step_def split_beta Let_def)
  apply (intro conjI nth_equalityI)
     apply simp_all
  done

lemma length_spec_warmup_step:
  "spec_warmup_step gauss eta kicktimestep kick_amplitude st = (a', b', g') \<Longrightarrow>
     length a' = length eta \<and> length b' = length eta"
  by (cases st) (auto simp: spec_warmup_step_def split_beta Let_def)

lemma warmup_loop_array:
  assumes "damp = map (\<lambda>e. exp (- e * kicktimestep)) eta" and "length eta = M" and "length kick_amplitude = M" and "\<forall>s\<in>set kick_amplitude. 0 \<le> s"
  shows "length a = M \<Longrightarrow> length b = M \<Longrightarrow>
     warmup_loop gauss M damp kick_amplitude n (Array a, Array b, g) =
       (case (spec_warmup_step gauss eta kicktimestep kick_amplitude ^^ n) (a, b, g) of
          (a', b', g') \<Rightarrow> Inr (Array a', Array b', g'))"
proof (induction n arbitrary: a b g)
  case 0
  then show ?case by simp
next
  case (Suc n)
  obtain a1 b1 g1 where st: "spec_warmup_step gauss eta kicktimestep kick_amplitude (a, b, g) = (a1, b1, g1)"
    by (cases "spec_warmup_step gauss eta kicktimestep kick_amplitude (a, b, g)") auto
  from length_spec_warmup_step [OF st] assms(2) have len: "length a1 = M" "length b1 = M" by simp_all
  show ?case
    by (simp add: warmup_step_array [OF assms Suc.prems] st Suc.IH [OF len] funpow_swap1)
qed

lemma warmup_loop_scalar:
  assumes "damp = map (\<lambda>e. exp (- e * kicktimestep)) eta" and "length eta = M" and "length kick_amplitude = M" and "\<forall>s\<in>set kick_amplitude. 0 \<le> s"
    and "0 < n"
  shows "warmup_loop gauss M damp kick_amplitude n (Scalar 0, Scalar 0, g) =
       (case (spec_warmup_step gauss eta kicktimestep kick_amplitude ^^ n) (replicate M 0, replicate M 0, g) of
          (a', b', g') \<Rightarrow> Inr (Array a', Array b', g'))"
proof -
  from assms(5) obtain k where n: "n = Suc k" by (cases n) auto
  obtain a1 b1 g1 where st:
    "spec_warmup_step gauss eta kicktimestep kick_amplitude (replicate M 0, replicate M 0, g) = (a1, b1, g1)"
    by (cases "spec_warmup_step gauss eta kicktimestep kick_amplitude (replicate M 0, replicate M 0, g)") auto
  from length_spec_warmup_step [OF st] assms(2) have len: "length a1 = M" "length b1 = M" by simp_all
  show ?thesis
    by (simp add: n warmup_step_scalar [OF assms(1-4)] st
        warmup_loop_array [OF assms(1-4) len] funpow_swap1)
qed

lemma length_spec_warmup_funpow:
  "length a = length eta \<Longrightarrow> length b = length eta \<Longrightarrow>
   (spec_warmup_step gauss eta kicktimestep kick_amplitude ^^ n) (a, b, g) = (a', b', g') \<Longrightarrow>
     length a' = length eta \<and> length b' = length eta"
proof (induction n arbitrary: a' b' g')
  case 0
  then show ?case by simp
next
  case (Suc n)
  obtain a1 b1 g1 where st: "(spec_warmup_step gauss eta kicktimestep kick_amplitude ^^ n) (a, b, g) = (a1, b1, g1)"
    by (cases "(spec_warmup_step gauss eta kicktimestep kick_amplitude ^^ n) (a, b, g)") auto
  from Suc.prems(3) have "spec_warmup_step gauss eta kicktimestep kick_amplitude (a1, b1, g1) = (a', b', g')"
    by (simp add: st)
  then show ?case by (rule length_spec_warmup_step)
qed

lemma prepare_Inr_derive:
  "prepare gauss rand g time freq ampl eta = Inr (k, ka, s0) \<Longrightarrow> derive_params ampl eta = Inr (k, ka)"
  by (cases "derive_params ampl eta")
     (auto simp: prepare_def Let_def bindE_def split: sum.splits prod.splits)



lemma warmup_valid:
  assumes "eta \<noteq> []" and "\<forall>e\<in>set eta. 0 < e" and "length kick_amplitude = length eta"
    and "\<forall>s\<in>set kick_amplitude. 0 \<le> s" and "M = length eta"
    and "kicktimestep = 1 / Max (set eta) / 100"
  shows "warmup gauss M eta kicktimestep kick_amplitude g =
           (case (spec_warmup_step gauss eta kicktimestep kick_amplitude
                    ^^ nat (min 20000 \<lfloor>1 / (Min (set eta) * kicktimestep)\<rfloor>))
                   (replicate M 0, replicate M 0, g) of
              (a', b', g') \<Rightarrow> Inr (Array a', Array b', g'))"
proof -
  from Nwarmup_valid [OF assms(1,2)] obtain n where
    n: "Nwarmup eta kicktimestep = Inr n" "100 \<le> n"
       "n = min 20000 \<lfloor>1 / (Min (set eta) * kicktimestep)\<rfloor>"
    unfolding assms(6) by blast
  have pos: "0 < nat n" using n(2) by simp
  have len: "length eta = M" "length kick_amplitude = M" using assms(3,5) by simp_all
  show ?thesis
    unfolding warmup_def Let_def n(1) bindE_Inr
    using warmup_loop_scalar [OF refl len assms(4) pos] n(3) by simp
qed

lemma kick_amplitude_nonneg:
  assumes "\<forall>a\<in>set ampl. 0 \<le> a" and "\<forall>e\<in>set eta. 0 < e" and "0 < k"
  shows "\<forall>s\<in>set (map2 (*) ampl (map (\<lambda>e. sqrt (k * e)) eta)). 0 \<le> s"
proof
  fix s assume "s \<in> set (map2 (*) ampl (map (\<lambda>e. sqrt (k * e)) eta))"
  then obtain a r where ar: "(a, r) \<in> set (zip ampl (map (\<lambda>e. sqrt (k * e)) eta))" "s = a * r"
    by auto
  from ar(1) have "a \<in> set ampl" by (rule set_zip_leftD)
  with assms(1) have a: "0 \<le> a" by blast
  from ar(1) have "r \<in> set (map (\<lambda>e. sqrt (k * e)) eta)" by (rule set_zip_rightD)
  then obtain e where e: "e \<in> set eta" "r = sqrt (k * e)" by auto
  from e(1) assms(2) have "0 < e" by blast
  with assms(3) e(2) have "0 \<le> r" by simp
  with a ar(2) show "0 \<le> s" by simp
qed


subsection \<open>Indexing and sequencing\<close>

lemma getitem_Inr [simp]: "i < length xs \<Longrightarrow> getitem xs i = Inr (xs ! i)"
  by (simp add: getitem_def)

lemma setitem_Inr [simp]: "i < length xs \<Longrightarrow> setitem xs i v = Inr (xs[i := v])"
  by (simp add: setitem_def)

lemma bindR_simps [simp]:
  "bindR None f = None" "bindR (Some (Inl e)) f = Some (Inl e)" "bindR (Some (Inr x)) f = f x"
  by (simp_all add: bindR_def)

lemma bindR_assoc: "bindR (bindR r f) h = bindR r (\<lambda>x. bindR (f x) h)"
  by (cases r) (auto simp: bindR_def split: sum.splits)

lemma bindR_return [simp]: "bindR r (\<lambda>x. Some (Inr x)) = r"
  by (cases r) (auto simp: bindR_def split: sum.splits)


subsection \<open>The main pass\<close>


lemma kick_shaped:
  assumes "shaped M N s" and "i < M" and "length eta = M" and "length kick_amplitude = M"
  shows "kick gauss kicktimestep eta kick_amplitude i s =
     Inr (s\<lparr>amplsin := Array ((nd_list (amplsin s))
               [i := exp (- (eta ! i) * (next_kicktime s ! i - last_kicktime s ! i)) * nd_list (amplsin s) ! i
                     + kick_amplitude ! i * fst (gauss (gen s))]),
            amplcos := Array ((nd_list (amplcos s))
               [i := exp (- (eta ! i) * (next_kicktime s ! i - last_kicktime s ! i)) * nd_list (amplcos s) ! i
                     + kick_amplitude ! i * fst (gauss (snd (gauss (gen s))))]),
            last_kicktime := (last_kicktime s)[i := next_kicktime s ! i],
            next_kicktime := (next_kicktime s)[i := next_kicktime s ! i + kicktimestep],
            gen := snd (gauss (snd (gauss (gen s))))\<rparr>)"
  using assms
  by (auto simp: shaped_def kick_def nd_getitem_def nd_setitem_def nd_list_def normal01_def
      Let_def split_beta)

lemma kick_props:
  assumes "shaped M N s" and "i < M" and "length eta = M" and "length kick_amplitude = M"
  shows "\<exists>s1. kick gauss kicktimestep eta kick_amplitude i s = Inr s1 \<and> shaped M N s1 \<and>
           signal s1 = signal s \<and> (\<forall>k. k \<noteq> i \<longrightarrow> mode_state s1 k = mode_state s k) \<and>
           last_kicktime s1 ! i = next_kicktime s ! i \<and>
           next_kicktime s1 ! i = next_kicktime s ! i + kicktimestep"
  unfolding kick_shaped [OF assms]
  using assms(1,2)
  by (auto simp: shaped_def mode_state_def nd_list_def)

lemma pending_decreases:
  assumes "0 < kicktimestep" and "next_kicktime s ! i \<le> t"
    and "next_kicktime s1 ! i = next_kicktime s ! i + kicktimestep"
  shows "pending kicktimestep t i s1 < pending kicktimestep t i s"
proof (cases "next_kicktime s1 ! i \<le> t")
  case False
  then show ?thesis using assms(2) by (simp add: pending_def)
next
  case True
  let ?x = "(t - next_kicktime s ! i) / kicktimestep"
  have eq: "(t - next_kicktime s1 ! i) / kicktimestep = ?x - 1"
    using assms(1,3) by (simp add: field_simps)
  have "0 \<le> (t - next_kicktime s1 ! i) / kicktimestep" using True assms(1) by simp
  then have "1 \<le> ?x" unfolding eq by simp
  then have "1 \<le> \<lfloor>?x\<rfloor>" by (simp add: le_floor_iff)
  then have "nat \<lfloor>?x - 1\<rfloor> < nat \<lfloor>?x\<rfloor>" by simp
  then show ?thesis using True assms(2) by (simp add: pending_def eq)
qed

lemma kick_loop_post:
  assumes k: "0 < kicktimestep" and le: "length eta = M" and lk: "length kick_amplitude = M" and i: "i < M"
  shows "shaped M N s \<Longrightarrow>
     \<exists>s'. kick_loop gauss kicktimestep eta kick_amplitude t i s = Some (Inr s') \<and>
          shaped M N s' \<and> signal s' = signal s \<and>
          (\<forall>k. k \<noteq> i \<longrightarrow> mode_state s' k = mode_state s k) \<and>
          t < next_kicktime s' ! i \<and>
          (next_kicktime s ! i - last_kicktime s ! i = kicktimestep \<longrightarrow>
             next_kicktime s' ! i - last_kicktime s' ! i = kicktimestep) \<and>
          (last_kicktime s ! i \<le> t \<longrightarrow> last_kicktime s' ! i \<le> t)"
proof (induction s rule: measure_induct_rule [where f = "pending kicktimestep t i"])
  case (less s)
  have len: "i < length (next_kicktime s)" using less.prems i by (simp add: shaped_def)
  show ?case
  proof (cases "next_kicktime s ! i \<le> t")
    case False
    then have "kick_loop gauss kicktimestep eta kick_amplitude t i s = Some (Inr s)"
      using len by (subst kick_loop.simps) simp
    then show ?thesis using False less.prems by auto
  next
    case True
    from kick_props [OF less.prems i le lk, of gauss kicktimestep] obtain s1 where s1:
      "kick gauss kicktimestep eta kick_amplitude i s = Inr s1" "shaped M N s1"
      "signal s1 = signal s" "\<forall>k. k \<noteq> i \<longrightarrow> mode_state s1 k = mode_state s k"
      "last_kicktime s1 ! i = next_kicktime s ! i"
      "next_kicktime s1 ! i = next_kicktime s ! i + kicktimestep"
      by blast
    have dec: "pending kicktimestep t i s1 < pending kicktimestep t i s"
      using k True s1(6) by (rule pending_decreases)
    from less.IH [OF dec s1(2)] obtain s' where s':
      "kick_loop gauss kicktimestep eta kick_amplitude t i s1 = Some (Inr s')"
      "shaped M N s'" "signal s' = signal s1"
      "\<forall>k. k \<noteq> i \<longrightarrow> mode_state s' k = mode_state s1 k"
      "t < next_kicktime s' ! i"
      "next_kicktime s1 ! i - last_kicktime s1 ! i = kicktimestep \<longrightarrow>
             next_kicktime s' ! i - last_kicktime s' ! i = kicktimestep"
      "last_kicktime s1 ! i \<le> t \<longrightarrow> last_kicktime s' ! i \<le> t"
      by blast
    have run: "kick_loop gauss kicktimestep eta kick_amplitude t i s = Some (Inr s')"
      using len True s1(1) s'(1) by (subst kick_loop.simps) simp
    have d: "next_kicktime s' ! i - last_kicktime s' ! i = kicktimestep"
      using s'(6) s1(5,6) by simp
    have l: "last_kicktime s' ! i \<le> t" using s'(7) s1(5) True by simp
    from run s'(2) s'(3) s1(3) s'(4) s1(4) s'(5) d l show ?thesis by simp
  qed
qed


lemma sample_shaped:
  assumes "shaped M N s" and "i < M" and "j < N" and "length eta = M" and "length freq = M"
    and "length time = N"
  shows "sample time freq eta j i s =
           Inr (s\<lparr>signal := (signal s)[j := signal s ! j + contribution time freq eta j s i]\<rparr>)"
  using assms
  by (auto simp: shaped_def sample_def contribution_def nd_getitem_def nd_list_def Let_def)

lemma contribution_cong:
  "mode_state s i = mode_state s' i \<Longrightarrow>
     contribution time freq eta j s i = contribution time freq eta j s' i"
  by (simp add: contribution_def mode_state_def)

lemma mode_state_signal_update [simp]: "mode_state (s\<lparr>signal := x\<rparr>) k = mode_state s k"
  by (simp add: mode_state_def)

lemma mode_step_post:
  assumes k: "0 < kicktimestep" and le: "length eta = M" and lk: "length kick_amplitude = M"
    and lf: "length freq = M" and lt: "length time = N" and i: "i < M" and j: "j < N"
    and sh: "shaped M N s"
  shows "\<exists>s'. mode_step gauss kicktimestep time freq eta kick_amplitude j i s = Some (Inr s') \<and>
          shaped M N s' \<and>
          signal s' = (signal s)[j := signal s ! j + contribution time freq eta j s' i] \<and>
          (\<forall>k. k \<noteq> i \<longrightarrow> mode_state s' k = mode_state s k) \<and>
          time ! j < next_kicktime s' ! i \<and>
          (next_kicktime s ! i - last_kicktime s ! i = kicktimestep \<longrightarrow>
             next_kicktime s' ! i - last_kicktime s' ! i = kicktimestep) \<and>
          (last_kicktime s ! i \<le> time ! j \<longrightarrow> last_kicktime s' ! i \<le> time ! j)"
proof -
  from kick_loop_post [OF k le lk i sh, of gauss "time ! j"] obtain s1 where s1:
    "kick_loop gauss kicktimestep eta kick_amplitude (time ! j) i s = Some (Inr s1)"
    "shaped M N s1" "signal s1 = signal s"
    "\<forall>k. k \<noteq> i \<longrightarrow> mode_state s1 k = mode_state s k"
    "time ! j < next_kicktime s1 ! i"
    "next_kicktime s ! i - last_kicktime s ! i = kicktimestep \<longrightarrow>
       next_kicktime s1 ! i - last_kicktime s1 ! i = kicktimestep"
    "last_kicktime s ! i \<le> time ! j \<longrightarrow> last_kicktime s1 ! i \<le> time ! j"
    by blast
  let ?s' = "s1\<lparr>signal := (signal s1)[j := signal s1 ! j + contribution time freq eta j s1 i]\<rparr>"
  have smp: "sample time freq eta j i s1 = Inr ?s'"
    using s1(2) i j le lf lt by (rule sample_shaped)
  have run: "mode_step gauss kicktimestep time freq eta kick_amplitude j i s = Some (Inr ?s')"
    using j lt s1(1) smp by (simp add: mode_step_def)
  have c: "contribution time freq eta j ?s' i = contribution time freq eta j s1 i"
    by (rule contribution_cong) simp
  have sh': "shaped M N ?s'" using s1(2) by (simp add: shaped_def)
  have sg: "signal ?s' = (signal s)[j := signal s ! j + contribution time freq eta j ?s' i]"
    unfolding c using s1(3) by simp
  have fr: "\<forall>k. k \<noteq> i \<longrightarrow> mode_state ?s' k = mode_state s k" using s1(4) by simp
  have n: "time ! j < next_kicktime ?s' ! i" using s1(5) by simp
  have d: "next_kicktime s ! i - last_kicktime s ! i = kicktimestep \<longrightarrow>
             next_kicktime ?s' ! i - last_kicktime ?s' ! i = kicktimestep" using s1(6) by simp
  have l: "last_kicktime s ! i \<le> time ! j \<longrightarrow> last_kicktime ?s' ! i \<le> time ! j" using s1(7) by simp
  from run sh' sg fr n d l show ?thesis by blast
qed

lemma mode_state_clock:
  "mode_state s' k = mode_state s k \<Longrightarrow>
     last_kicktime s' ! k = last_kicktime s ! k \<and> next_kicktime s' ! k = next_kicktime s ! k"
  by (simp add: mode_state_def)

lemma modes_loop_post:
  assumes k: "0 < kicktimestep" and le: "length eta = M" and lk: "length kick_amplitude = M"
    and lf: "length freq = M" and lt: "length time = N" and j: "j < N"
  shows "shaped M N s \<Longrightarrow> distinct is \<Longrightarrow> \<forall>i\<in>set is. i < M \<Longrightarrow>
     \<exists>s'. modes_loop gauss kicktimestep time freq eta kick_amplitude j is s = Some (Inr s') \<and>
          shaped M N s' \<and>
          signal s' = (signal s)[j := signal s ! j + sum_list (map (contribution time freq eta j s') is)] \<and>
          (\<forall>k. k \<notin> set is \<longrightarrow> mode_state s' k = mode_state s k) \<and>
          (\<forall>i\<in>set is. time ! j < next_kicktime s' ! i \<and>
             (next_kicktime s ! i - last_kicktime s ! i = kicktimestep \<longrightarrow>
                next_kicktime s' ! i - last_kicktime s' ! i = kicktimestep) \<and>
             (last_kicktime s ! i \<le> time ! j \<longrightarrow> last_kicktime s' ! i \<le> time ! j))"
proof (induction "is" arbitrary: s)
  case Nil
  then show ?case using j by (simp add: shaped_def)
next
  case (Cons i "is")
  have i: "i < M" using Cons.prems(3) by simp
  from mode_step_post [OF k le lk lf lt i j Cons.prems(1), of gauss] obtain s1 where s1:
    "mode_step gauss kicktimestep time freq eta kick_amplitude j i s = Some (Inr s1)"
    "shaped M N s1"
    "signal s1 = (signal s)[j := signal s ! j + contribution time freq eta j s1 i]"
    "\<forall>k. k \<noteq> i \<longrightarrow> mode_state s1 k = mode_state s k"
    "time ! j < next_kicktime s1 ! i"
    "next_kicktime s ! i - last_kicktime s ! i = kicktimestep \<longrightarrow>
       next_kicktime s1 ! i - last_kicktime s1 ! i = kicktimestep"
    "last_kicktime s ! i \<le> time ! j \<longrightarrow> last_kicktime s1 ! i \<le> time ! j"
    by blast
  have dis: "distinct is" and notin: "i \<notin> set is" using Cons.prems(2) by simp_all
  have bnd: "\<forall>i\<in>set is. i < M" using Cons.prems(3) by simp
  from Cons.IH [OF s1(2) dis bnd] obtain s' where s':
    "modes_loop gauss kicktimestep time freq eta kick_amplitude j is s1 = Some (Inr s')"
    "shaped M N s'"
    "signal s' = (signal s1)[j := signal s1 ! j + sum_list (map (contribution time freq eta j s') is)]"
    "\<forall>k. k \<notin> set is \<longrightarrow> mode_state s' k = mode_state s1 k"
    "\<forall>i\<in>set is. time ! j < next_kicktime s' ! i \<and>
       (next_kicktime s1 ! i - last_kicktime s1 ! i = kicktimestep \<longrightarrow>
          next_kicktime s' ! i - last_kicktime s' ! i = kicktimestep) \<and>
       (last_kicktime s1 ! i \<le> time ! j \<longrightarrow> last_kicktime s' ! i \<le> time ! j)"
    by blast
  have run: "modes_loop gauss kicktimestep time freq eta kick_amplitude j (i # is) s = Some (Inr s')"
    using s1(1) s'(1) by simp
  have mi: "mode_state s' i = mode_state s1 i" using s'(4) notin by blast
  have ci: "contribution time freq eta j s1 i = contribution time freq eta j s' i"
    using mi by (rule contribution_cong [symmetric])
  have jl: "j < length (signal s)" using Cons.prems(1) j by (simp add: shaped_def)
  have sg: "signal s' = (signal s)[j := signal s ! j
              + sum_list (map (contribution time freq eta j s') (i # is))]"
    using jl by (simp add: s'(3) s1(3) ci add.assoc)
  have fr: "\<forall>k. k \<notin> set (i # is) \<longrightarrow> mode_state s' k = mode_state s k"
    using s'(4) s1(4) by simp
  have ck: "last_kicktime s' ! i = last_kicktime s1 ! i \<and> next_kicktime s' ! i = next_kicktime s1 ! i"
    using mi by (rule mode_state_clock)
  have pi: "time ! j < next_kicktime s' ! i \<and>
       (next_kicktime s ! i - last_kicktime s ! i = kicktimestep \<longrightarrow>
          next_kicktime s' ! i - last_kicktime s' ! i = kicktimestep) \<and>
       (last_kicktime s ! i \<le> time ! j \<longrightarrow> last_kicktime s' ! i \<le> time ! j)"
    using s1(5,6,7) ck by simp
  have pr: "\<forall>m\<in>set is. time ! j < next_kicktime s' ! m \<and>
       (next_kicktime s ! m - last_kicktime s ! m = kicktimestep \<longrightarrow>
          next_kicktime s' ! m - last_kicktime s' ! m = kicktimestep) \<and>
       (last_kicktime s ! m \<le> time ! j \<longrightarrow> last_kicktime s' ! m \<le> time ! j)"
  proof
    fix m assume m: "m \<in> set is"
    then have "m \<noteq> i" using notin by blast
    then have "mode_state s1 m = mode_state s m" using s1(4) by blast
    then have "last_kicktime s1 ! m = last_kicktime s ! m \<and> next_kicktime s1 ! m = next_kicktime s ! m"
      by (rule mode_state_clock)
    with s'(5) m show "time ! j < next_kicktime s' ! m \<and>
       (next_kicktime s ! m - last_kicktime s ! m = kicktimestep \<longrightarrow>
          next_kicktime s' ! m - last_kicktime s' ! m = kicktimestep) \<and>
       (last_kicktime s ! m \<le> time ! j \<longrightarrow> last_kicktime s' ! m \<le> time ! j)"
      by simp
  qed
  from run s'(2) sg fr pi pr show ?case by simp
qed


lemma modes_loop_Cons:
  "modes_loop gauss kicktimestep time freq eta kick_amplitude j (i # is) s =
     bindR (mode_step gauss kicktimestep time freq eta kick_amplitude j i s)
       (modes_loop gauss kicktimestep time freq eta kick_amplitude j is)"
  by (simp add: bindR_def split: option.splits sum.splits)

lemma time_loop_Cons:
  "time_loop gauss kicktimestep time freq eta kick_amplitude (j # js) s =
     bindR (modes_loop gauss kicktimestep time freq eta kick_amplitude j [0..<length freq] s)
       (time_loop gauss kicktimestep time freq eta kick_amplitude js)"
  by (simp add: bindR_def split: option.splits sum.splits)

lemma modes_loop_append:
  "modes_loop gauss kicktimestep time freq eta kick_amplitude j (xs @ ys) s =
     bindR (modes_loop gauss kicktimestep time freq eta kick_amplitude j xs s)
       (modes_loop gauss kicktimestep time freq eta kick_amplitude j ys)"
proof (induction xs arbitrary: s)
  case Nil
  show ?case by simp
next
  case (Cons x xs)
  have "modes_loop gauss kicktimestep time freq eta kick_amplitude j (xs @ ys) =
          (\<lambda>s. bindR (modes_loop gauss kicktimestep time freq eta kick_amplitude j xs s)
             (modes_loop gauss kicktimestep time freq eta kick_amplitude j ys))"
    by (rule ext) (rule Cons.IH)
  then show ?case
    unfolding append_Cons modes_loop_Cons bindR_assoc by simp
qed

lemma time_loop_append:
  "time_loop gauss kicktimestep time freq eta kick_amplitude (xs @ ys) s =
     bindR (time_loop gauss kicktimestep time freq eta kick_amplitude xs s)
       (time_loop gauss kicktimestep time freq eta kick_amplitude ys)"
proof (induction xs arbitrary: s)
  case Nil
  show ?case by simp
next
  case (Cons x xs)
  have "time_loop gauss kicktimestep time freq eta kick_amplitude (xs @ ys) =
          (\<lambda>s. bindR (time_loop gauss kicktimestep time freq eta kick_amplitude xs s)
             (time_loop gauss kicktimestep time freq eta kick_amplitude ys))"
    by (rule ext) (rule Cons.IH)
  then show ?case
    unfolding append_Cons time_loop_Cons bindR_assoc by simp
qed

lemma time_loop_single:
  "time_loop gauss kicktimestep time freq eta kick_amplitude [k] =
     modes_loop gauss kicktimestep time freq eta kick_amplitude k [0..<length freq]"
  by (rule ext) (simp split: option.splits sum.splits)

lemma time_loop_Suc:
  "time_loop gauss kicktimestep time freq eta kick_amplitude [0..<Suc k] s =
     bindR (time_loop gauss kicktimestep time freq eta kick_amplitude [0..<k] s)
       (modes_loop gauss kicktimestep time freq eta kick_amplitude k [0..<length freq])"
  by (simp add: time_loop_append time_loop_single del: time_loop.simps)

lemma mode_step_bindR:
  "mode_step gauss kicktimestep time freq eta kick_amplitude j i s =
     bindR (Some (getitem time j)) (\<lambda>t.
     bindR (kick_loop gauss kicktimestep eta kick_amplitude t i s) (\<lambda>s'.
       Some (sample time freq eta j i s')))"
  by (simp add: mode_step_def bindR_def split: option.splits sum.splits)

lemma sum_list_upt: "sum_list (map f [0..<n]) = (\<Sum>i<n. f i)"
  by (simp add: interv_sum_list_conv_sum_set_nat atLeast0LessThan)

lemma time_step_post:
  assumes k: "0 < kicktimestep" and le: "length eta = M" and lk: "length kick_amplitude = M"
    and lf: "length freq = M" and lt: "length time = N" and j: "j < N" and sh: "shaped M N s"
  shows "\<exists>s'. modes_loop gauss kicktimestep time freq eta kick_amplitude j [0..<length freq] s = Some (Inr s') \<and>
          shaped M N s' \<and>
          signal s' = (signal s)[j := signal s ! j + (\<Sum>i<M. contribution time freq eta j s' i)] \<and>
          (\<forall>i<M. time ! j < next_kicktime s' ! i \<and>
             (next_kicktime s ! i - last_kicktime s ! i = kicktimestep \<longrightarrow>
                next_kicktime s' ! i - last_kicktime s' ! i = kicktimestep) \<and>
             (last_kicktime s ! i \<le> time ! j \<longrightarrow> last_kicktime s' ! i \<le> time ! j))"
proof -
  have d: "distinct [0..<M]" by simp
  have b: "\<forall>i\<in>set [0..<M]. i < M" by simp
  from modes_loop_post [OF k le lk lf lt j sh d b, of gauss]
  show ?thesis unfolding lf sum_list_upt by auto
qed

lemma time_loop_signal:
  assumes k: "0 < kicktimestep" and le: "length eta = M" and lk: "length kick_amplitude = M"
    and lf: "length freq = M" and lt: "length time = N" and sh: "shaped M N s0"
  shows "n \<le> N \<Longrightarrow>
     \<exists>s. time_loop gauss kicktimestep time freq eta kick_amplitude [0..<n] s0 = Some (Inr s) \<and>
         shaped M N s \<and>
         (\<forall>j. n \<le> j \<longrightarrow> signal s ! j = signal s0 ! j) \<and>
         (\<forall>j<n. \<exists>sj. time_loop gauss kicktimestep time freq eta kick_amplitude [0..<Suc j] s0 = Some (Inr sj) \<and>
                  shaped M N sj \<and>
                  signal s ! j = signal s0 ! j + (\<Sum>i<M. contribution time freq eta j sj i))"
proof (induction n)
  case 0
  then show ?case using sh by simp
next
  case (Suc n)
  then have nN: "n < N" and nle: "n \<le> N" by simp_all
  from Suc.IH [OF nle] obtain s where s:
    "time_loop gauss kicktimestep time freq eta kick_amplitude [0..<n] s0 = Some (Inr s)"
    "shaped M N s" "\<forall>j. n \<le> j \<longrightarrow> signal s ! j = signal s0 ! j"
    "\<forall>j<n. \<exists>sj. time_loop gauss kicktimestep time freq eta kick_amplitude [0..<Suc j] s0 = Some (Inr sj) \<and>
                  shaped M N sj \<and>
                  signal s ! j = signal s0 ! j + (\<Sum>i<M. contribution time freq eta j sj i)"
    by blast
  from time_step_post [OF k le lk lf lt nN s(2), of gauss] obtain s' where s':
    "modes_loop gauss kicktimestep time freq eta kick_amplitude n [0..<length freq] s = Some (Inr s')"
    "shaped M N s'"
    "signal s' = (signal s)[n := signal s ! n + (\<Sum>i<M. contribution time freq eta n s' i)]"
    by blast
  have run: "time_loop gauss kicktimestep time freq eta kick_amplitude [0..<Suc n] s0 = Some (Inr s')"
    unfolding time_loop_Suc using s(1) s'(1) by simp
  have nl: "n < length (signal s)" using s(2) nN by (simp add: shaped_def)
  have later: "\<forall>j. Suc n \<le> j \<longrightarrow> signal s' ! j = signal s0 ! j"
    using s(3) by (simp add: s'(3))
  have now: "signal s' ! n = signal s0 ! n + (\<Sum>i<M. contribution time freq eta n s' i)"
    using s(3) nl by (simp add: s'(3))
  have earlier: "\<forall>j<Suc n. \<exists>sj. time_loop gauss kicktimestep time freq eta kick_amplitude [0..<Suc j] s0 = Some (Inr sj) \<and>
                  shaped M N sj \<and>
                  signal s' ! j = signal s0 ! j + (\<Sum>i<M. contribution time freq eta j sj i)"
  proof (intro allI impI)
    fix j assume "j < Suc n"
    then consider "j < n" | "j = n" by linarith
    then show "\<exists>sj. time_loop gauss kicktimestep time freq eta kick_amplitude [0..<Suc j] s0 = Some (Inr sj) \<and>
                  shaped M N sj \<and>
                  signal s' ! j = signal s0 ! j + (\<Sum>i<M. contribution time freq eta j sj i)"
    proof cases
      case 1
      with s(4) obtain sj where sj:
        "time_loop gauss kicktimestep time freq eta kick_amplitude [0..<Suc j] s0 = Some (Inr sj)"
        "shaped M N sj"
        "signal s ! j = signal s0 ! j + (\<Sum>i<M. contribution time freq eta j sj i)"
        by blast
      have "signal s' ! j = signal s ! j" using 1 by (simp add: s'(3))
      with sj show ?thesis by auto
    next
      case 2
      with run s'(2) now show ?thesis by auto
    qed
  qed
  from run s'(2) later earlier show ?case by blast
qed

lemma time_loop_clock:
  assumes k: "0 < kicktimestep" and le: "length eta = M" and lk: "length kick_amplitude = M"
    and lf: "length freq = M" and lt: "length time = N" and sh: "shaped M N s0"
    and srt: "sorted time"
    and c0: "\<forall>i<M. last_kicktime s0 ! i \<le> time ! 0 \<and> next_kicktime s0 ! i - last_kicktime s0 ! i = kicktimestep"
  shows "n \<le> N \<Longrightarrow>
     \<exists>s. time_loop gauss kicktimestep time freq eta kick_amplitude [0..<n] s0 = Some (Inr s) \<and>
         shaped M N s \<and>
         (\<forall>i<M. next_kicktime s ! i - last_kicktime s ! i = kicktimestep \<and>
                last_kicktime s ! i \<le> time ! (n - 1) \<and>
                (0 < n \<longrightarrow> time ! (n - 1) < next_kicktime s ! i))"
proof (induction n)
  case 0
  then show ?case using sh c0 by simp
next
  case (Suc n)
  then have nN: "n < N" and nle: "n \<le> N" by simp_all
  from Suc.IH [OF nle] obtain s where s:
    "time_loop gauss kicktimestep time freq eta kick_amplitude [0..<n] s0 = Some (Inr s)"
    "shaped M N s"
    "\<forall>i<M. next_kicktime s ! i - last_kicktime s ! i = kicktimestep \<and>
            last_kicktime s ! i \<le> time ! (n - 1)"
    by blast
  have mono: "time ! (n - 1) \<le> time ! n"
    using srt nN lt by (intro sorted_nth_mono) simp_all
  from time_step_post [OF k le lk lf lt nN s(2), of gauss] obtain s' where s':
    "modes_loop gauss kicktimestep time freq eta kick_amplitude n [0..<length freq] s = Some (Inr s')"
    "shaped M N s'"
    "\<forall>i<M. time ! n < next_kicktime s' ! i \<and>
             (next_kicktime s ! i - last_kicktime s ! i = kicktimestep \<longrightarrow>
                next_kicktime s' ! i - last_kicktime s' ! i = kicktimestep) \<and>
             (last_kicktime s ! i \<le> time ! n \<longrightarrow> last_kicktime s' ! i \<le> time ! n)"
    by blast
  have run: "time_loop gauss kicktimestep time freq eta kick_amplitude [0..<Suc n] s0 = Some (Inr s')"
    unfolding time_loop_Suc using s(1) s'(1) by simp
  have inv: "\<forall>i<M. next_kicktime s' ! i - last_kicktime s' ! i = kicktimestep \<and>
                last_kicktime s' ! i \<le> time ! (Suc n - 1) \<and>
                (0 < Suc n \<longrightarrow> time ! (Suc n - 1) < next_kicktime s' ! i)"
  proof (intro allI impI)
    fix i assume i: "i < M"
    from s(3) i have a: "next_kicktime s ! i - last_kicktime s ! i = kicktimestep"
      and b: "last_kicktime s ! i \<le> time ! (n - 1)" by simp_all
    from b mono have b': "last_kicktime s ! i \<le> time ! n" by simp
    from s'(3) i a b' show "next_kicktime s' ! i - last_kicktime s' ! i = kicktimestep \<and>
                last_kicktime s' ! i \<le> time ! (Suc n - 1) \<and>
                (0 < Suc n \<longrightarrow> time ! (Suc n - 1) < next_kicktime s' ! i)"
      by simp
  qed
  from run s'(2) inv show ?case by blast
qed


lemma length_uniform [simp]: "length (fst (uniform rand low high n g)) = n"
  by (induction n arbitrary: g) (simp_all add: split_beta Let_def)

lemma uniform_nth:
  "i < n \<Longrightarrow> \<exists>g'. fst (uniform rand low high n g) ! i = low + (high - low) * fst (rand g')"
proof (induction n arbitrary: g i)
  case 0
  then show ?case by simp
next
  case (Suc n)
  show ?case
  proof (cases i)
    case 0
    then show ?thesis by (auto simp: split_beta Let_def)
  next
    case (Suc m)
    with Suc.prems have "m < n" by simp
    from Suc.IH [OF this, of "snd (rand g)"] show ?thesis
      by (simp add: Suc split_beta Let_def)
  qed
qed

lemma init_kicks_valid:
  assumes "time \<noteq> []"
  shows "\<exists>lk g'. init_kicks rand time kicktimestep M g = Inr (lk, map (\<lambda>l. l + kicktimestep) lk, g') \<and>
           length lk = M \<and>
           (\<forall>i<M. \<exists>g''. lk ! i = time ! 0 - kicktimestep + kicktimestep * fst (rand g''))"
proof -
  have t: "getitem time 0 = Inr (time ! 0)" using assms by simp
  obtain lk g' where u: "uniform rand (time ! 0 - kicktimestep) (time ! 0) M g = (lk, g')"
    by (cases "uniform rand (time ! 0 - kicktimestep) (time ! 0) M g") auto
  have lk: "lk = fst (uniform rand (time ! 0 - kicktimestep) (time ! 0) M g)" using u by simp
  have len: "length lk = M" unfolding lk by simp
  have nth: "\<forall>i<M. \<exists>g''. lk ! i = time ! 0 - kicktimestep + kicktimestep * fst (rand g'')"
  proof (intro allI impI)
    fix i assume "i < M"
    from uniform_nth [OF this, of rand "time ! 0 - kicktimestep" "time ! 0" g]
    show "\<exists>g''. lk ! i = time ! 0 - kicktimestep + kicktimestep * fst (rand g'')"
      unfolding lk by simp
  qed
  have "init_kicks rand time kicktimestep M g = Inr (lk, map (\<lambda>l. l + kicktimestep) lk, g')"
    by (simp add: init_kicks_def t u)
  with len nth show ?thesis by blast
qed

lemma prepare_valid:
  assumes t: "time \<noteq> []" and e: "eta \<noteq> []" and pos: "\<forall>e\<in>set eta. 0 < e"
    and lf: "length freq = length eta" and la: "length ampl = length eta"
    and nn: "\<forall>a\<in>set ampl. 0 \<le> a"
  shows "\<exists>kick_amplitude s0.
           prepare gauss rand g time freq ampl eta = Inr (1 / Max (set eta) / 100, kick_amplitude, s0) \<and>
           length kick_amplitude = length eta \<and>
           shaped (length eta) (length time) s0 \<and>
           signal s0 = replicate (length time) 0 \<and>
           (\<forall>i<length eta. next_kicktime s0 ! i - last_kicktime s0 ! i = 1 / Max (set eta) / 100) \<and>
           ((\<forall>g. fst (rand g) < 1) \<longrightarrow> (\<forall>i<length eta. last_kicktime s0 ! i \<le> time ! 0))"
proof -
  let ?k = "1 / Max (set eta) / 100"
  let ?ka = "map2 (*) ampl (map (\<lambda>e. sqrt (?k * e)) eta)"
  let ?M = "length eta"
  have kpos: "0 < ?k" using Max_pos [OF e pos] by simp
  have d: "derive_params ampl eta = Inr (?k, ?ka)"
    using e pos la by (rule derive_params_valid)
  have kn: "\<forall>s\<in>set ?ka. 0 \<le> s" using nn pos kpos by (rule kick_amplitude_nonneg)
  have lka: "length ?ka = ?M" using la by simp
  obtain a b g1 where sp:
    "(spec_warmup_step gauss eta ?k ?ka ^^ nat (min 20000 \<lfloor>1 / (Min (set eta) * ?k)\<rfloor>))
       (replicate ?M 0, replicate ?M 0, g) = (a, b, g1)"
    by (cases "(spec_warmup_step gauss eta ?k ?ka ^^ nat (min 20000 \<lfloor>1 / (Min (set eta) * ?k)\<rfloor>))
       (replicate ?M 0, replicate ?M 0, g)") auto
  have w: "warmup gauss (length freq) eta ?k ?ka g = Inr (Array a, Array b, g1)"
    using warmup_valid [OF e pos lka kn lf refl, of gauss g] sp lf by simp
  have len: "length a = ?M \<and> length b = ?M"
    by (rule length_spec_warmup_funpow [OF _ _ sp]) simp_all
  from init_kicks_valid [OF t, of rand ?k "length freq" g1] obtain lk g2 where ik:
    "init_kicks rand time ?k (length freq) g1 = Inr (lk, map (\<lambda>l. l + ?k) lk, g2)"
    "length lk = length freq"
    "\<forall>i<length freq. \<exists>g''. lk ! i = time ! 0 - ?k + ?k * fst (rand g'')"
    by blast
  let ?s0 = "\<lparr>amplsin = Array a, amplcos = Array b, last_kicktime = lk,
              next_kicktime = map (\<lambda>l. l + ?k) lk, signal = replicate (length time) 0, gen = g2\<rparr>"
  have p: "prepare gauss rand g time freq ampl eta = Inr (?k, ?ka, ?s0)"
    unfolding prepare_def Let_def d bindE_Inr prod.case w ik(1) by (rule refl)
  have sh: "shaped ?M (length time) ?s0" using len ik(2) lf by (simp add: shaped_def)
  have df: "\<forall>i<?M. next_kicktime ?s0 ! i - last_kicktime ?s0 ! i = ?k"
    using ik(2) lf by simp
  have lt: "(\<forall>g. fst (rand g) < 1) \<longrightarrow> (\<forall>i<?M. last_kicktime ?s0 ! i \<le> time ! 0)"
  proof (intro impI allI)
    fix i assume r: "\<forall>g. fst (rand g) < 1" and i: "i < ?M"
    from ik(3) i lf obtain g'' where g'': "lk ! i = time ! 0 - ?k + ?k * fst (rand g'')" by auto
    from r have "fst (rand g'') \<le> 1" by (simp add: less_imp_le)
    then have "?k * fst (rand g'') \<le> ?k * 1" using kpos by (intro mult_left_mono) simp_all
    then show "last_kicktime ?s0 ! i \<le> time ! 0" using g'' by simp
  qed
  have sg: "signal ?s0 = replicate (length time) 0" by simp
  from p lka sh sg df lt show ?thesis by blast
qed


lemma probe_returns:
  assumes k: "0 < kicktimestep" and le: "length eta = M" and lk: "length kick_amplitude = M"
    and lf: "length freq = M" and lt: "length time = N" and sh: "shaped M N s0"
    and j: "j < N" and i: "i < M"
  shows "\<exists>s. state_before_sample gauss kicktimestep time freq eta kick_amplitude j i s0 = Some (Inr s) \<and>
             shaped M N s \<and> time ! j < next_kicktime s ! i"
proof -
  have jN: "j \<le> N" using j by simp
  from time_loop_signal [OF k le lk lf lt sh jN, of gauss] obtain s1 where s1:
    "time_loop gauss kicktimestep time freq eta kick_amplitude [0..<j] s0 = Some (Inr s1)"
    "shaped M N s1" by blast
  have d: "distinct [0..<i]" by simp
  have b: "\<forall>m\<in>set [0..<i]. m < M" using i by simp
  from modes_loop_post [OF k le lk lf lt j s1(2) d b, of gauss] obtain s2 where s2:
    "modes_loop gauss kicktimestep time freq eta kick_amplitude j [0..<i] s1 = Some (Inr s2)"
    "shaped M N s2" by blast
  from kick_loop_post [OF k le lk i s2(2), of gauss "time ! j"] obtain s3 where s3:
    "kick_loop gauss kicktimestep eta kick_amplitude (time ! j) i s2 = Some (Inr s3)"
    "shaped M N s3" "time ! j < next_kicktime s3 ! i" by blast
  have "state_before_sample gauss kicktimestep time freq eta kick_amplitude j i s0 = Some (Inr s3)"
    using s1(1) s2(1) s3(1) j lt by (simp add: state_before_sample_def)
  with s3(2,3) show ?thesis by blast
qed

lemma probe_clock:
  assumes k: "0 < kicktimestep" and le: "length eta = M" and lk: "length kick_amplitude = M"
    and lf: "length freq = M" and lt: "length time = N" and sh: "shaped M N s0"
    and srt: "sorted time"
    and c0: "\<forall>i<M. last_kicktime s0 ! i \<le> time ! 0 \<and> next_kicktime s0 ! i - last_kicktime s0 ! i = kicktimestep"
    and j: "j < N" and i: "i < M"
  shows "\<exists>s. state_before_sample gauss kicktimestep time freq eta kick_amplitude j i s0 = Some (Inr s) \<and>
             last_kicktime s ! i \<le> time ! j \<and> time ! j < next_kicktime s ! i \<and>
             next_kicktime s ! i - last_kicktime s ! i = kicktimestep"
proof -
  have jN: "j \<le> N" using j by simp
  from time_loop_clock [OF k le lk lf lt sh srt c0 jN, of gauss] obtain s1 where s1:
    "time_loop gauss kicktimestep time freq eta kick_amplitude [0..<j] s0 = Some (Inr s1)"
    "shaped M N s1"
    "\<forall>i<M. next_kicktime s1 ! i - last_kicktime s1 ! i = kicktimestep \<and>
            last_kicktime s1 ! i \<le> time ! (j - 1)"
    by blast
  have mono: "time ! (j - 1) \<le> time ! j"
    using srt j lt by (intro sorted_nth_mono) simp_all
  have d: "distinct [0..<i]" by simp
  have b: "\<forall>m\<in>set [0..<i]. m < M" using i by simp
  from modes_loop_post [OF k le lk lf lt j s1(2) d b, of gauss] obtain s2 where s2:
    "modes_loop gauss kicktimestep time freq eta kick_amplitude j [0..<i] s1 = Some (Inr s2)"
    "shaped M N s2" "\<forall>k. k \<notin> set [0..<i] \<longrightarrow> mode_state s2 k = mode_state s1 k" by blast
  have "mode_state s2 i = mode_state s1 i" using s2(3) by simp
  then have ck: "last_kicktime s2 ! i = last_kicktime s1 ! i \<and> next_kicktime s2 ! i = next_kicktime s1 ! i"
    by (rule mode_state_clock)
  have pre: "next_kicktime s2 ! i - last_kicktime s2 ! i = kicktimestep" "last_kicktime s2 ! i \<le> time ! j"
    using s1(3) i ck mono by auto
  from kick_loop_post [OF k le lk i s2(2), of gauss "time ! j"] pre obtain s3 where s3:
    "kick_loop gauss kicktimestep eta kick_amplitude (time ! j) i s2 = Some (Inr s3)"
    "time ! j < next_kicktime s3 ! i"
    "next_kicktime s3 ! i - last_kicktime s3 ! i = kicktimestep"
    "last_kicktime s3 ! i \<le> time ! j" by blast
  have "state_before_sample gauss kicktimestep time freq eta kick_amplitude j i s0 = Some (Inr s3)"
    using s1(1) s2(1) s3(1) j lt by (simp add: state_before_sample_def)
  with s3(2,3,4) show ?thesis by blast
qed

lemma modes_loop_Cons_fun:
  "modes_loop gauss kicktimestep time freq eta kick_amplitude j (i # is) =
     (\<lambda>s. bindR (mode_step gauss kicktimestep time freq eta kick_amplitude j i s)
        (modes_loop gauss kicktimestep time freq eta kick_amplitude j is))"
  by (rule ext) (rule modes_loop_Cons)

lemma time_loop_Cons_fun:
  "time_loop gauss kicktimestep time freq eta kick_amplitude (j # js) =
     (\<lambda>s. bindR (modes_loop gauss kicktimestep time freq eta kick_amplitude j [0..<length freq] s)
        (time_loop gauss kicktimestep time freq eta kick_amplitude js))"
  by (rule ext) (rule time_loop_Cons)

lemma run_through_probe:
  assumes "j < length time" and "i < length freq"
  shows "time_loop gauss kicktimestep time freq eta kick_amplitude [0..<length time] s0 =
     bindR (state_before_sample gauss kicktimestep time freq eta kick_amplitude j i s0) (\<lambda>s.
     bindR (Some (sample time freq eta j i s)) (\<lambda>s'.
     bindR (modes_loop gauss kicktimestep time freq eta kick_amplitude j [Suc i..<length freq] s')
       (time_loop gauss kicktimestep time freq eta kick_amplitude [Suc j..<length time])))"
proof -
  have tj: "[0..<length time] = [0..<j] @ j # [Suc j..<length time]"
    using assms(1) by (metis less_imp_le_nat upt_add_eq_append upt_conv_Cons zero_le le_add_diff_inverse add_0)
  have mi: "[0..<length freq] = [0..<i] @ i # [Suc i..<length freq]"
    using assms(2) by (metis less_imp_le_nat upt_add_eq_append upt_conv_Cons zero_le le_add_diff_inverse add_0)
  have ms: "modes_loop gauss kicktimestep time freq eta kick_amplitude j [0..<length freq] =
      (\<lambda>s. bindR (modes_loop gauss kicktimestep time freq eta kick_amplitude j [0..<i] s) (\<lambda>s2.
            bindR (mode_step gauss kicktimestep time freq eta kick_amplitude j i s2)
              (modes_loop gauss kicktimestep time freq eta kick_amplitude j [Suc i..<length freq])))"
    by (rule ext, subst mi) (simp only: modes_loop_append modes_loop_Cons_fun)
  show ?thesis
    apply (subst tj)
    apply (simp only: time_loop_append time_loop_Cons_fun ms state_before_sample_def mode_step_bindR bindR_assoc)
    done
qed


lemma solarosc_from_prepare:
  assumes "prepare gauss rand g time freq ampl eta = Inr (kicktimestep, kick_amplitude, s0)"
    and "time_loop gauss kicktimestep time freq eta kick_amplitude [0..<length time] s0 = Some (Inr s)"
  shows "solarosc gauss rand g time freq ampl eta = Some (Inr (signal s))"
  using assms by (simp add: solarosc_def)


subsection \<open>Scaling the amplitudes\<close>


lemma getitem_map: "getitem (map f xs) i = map_sum id f (getitem xs i)"
  by (simp add: getitem_def)

lemma nd_getitem_scale: "nd_getitem (scale_nd c a) i = map_sum id ((*) c) (nd_getitem a i)"
  by (cases a) (simp_all add: nd_getitem_def scale_nd_def getitem_map)

lemma nd_setitem_scale: "nd_setitem (scale_nd c a) i (c * v) = map_sum id (scale_nd c) (nd_setitem a i v)"
  by (cases a) (auto simp: nd_setitem_def scale_nd_def setitem_def map_update)

lemma scale_sim_simps [simp]:
  "amplsin (scale_sim c s) = scale_nd c (amplsin s)"
  "amplcos (scale_sim c s) = scale_nd c (amplcos s)"
  "last_kicktime (scale_sim c s) = last_kicktime s"
  "next_kicktime (scale_sim c s) = next_kicktime s"
  "signal (scale_sim c s) = map ((*) c) (signal s)"
  "gen (scale_sim c s) = gen s"
  by (simp_all add: scale_sim_def)

lemma kick_scale:
  "kick gauss kicktimestep eta (map ((*) c) kick_amplitude) i (scale_sim c s) =
     map_sum id (scale_sim c) (kick gauss kicktimestep eta kick_amplitude i s)"
proof -
  have v: "d * (c * x) + c * k * z = c * (d * x + k * z)" for d x k z :: real
    by (simp add: algebra_simps)
  show ?thesis
    unfolding kick_def
    apply (simp add: nd_getitem_scale getitem_map Let_def split_beta)
    apply (cases "getitem (next_kicktime s) i"; simp)
    apply (cases "getitem (last_kicktime s) i"; simp)
    apply (cases "getitem eta i"; simp)
    apply (cases "nd_getitem (amplsin s) i"; simp)
    apply (cases "getitem kick_amplitude i"; simp)
    apply (simp add: v nd_setitem_scale)
    apply (cases "nd_setitem (amplsin s) i
        (exp (- (projr (getitem eta i) * (projr (getitem (next_kicktime s) i) - projr (getitem (last_kicktime s) i))))
           * projr (nd_getitem (amplsin s) i)
         + projr (getitem kick_amplitude i) * fst (normal01 gauss (gen s)))"; simp)
    apply (cases "nd_getitem (amplcos s) i"; simp)
    apply (simp add: v nd_setitem_scale)
    apply (cases "nd_setitem (amplcos s) i
        (exp (- (projr (getitem eta i) * (projr (getitem (next_kicktime s) i) - projr (getitem (last_kicktime s) i))))
           * projr (nd_getitem (amplcos s) i)
         + projr (getitem kick_amplitude i) * fst (normal01 gauss (snd (normal01 gauss (gen s)))))"; simp)
    apply (auto simp: setitem_def scale_sim_def split: if_splits)
    done
qed


lemma kick_loop_scale:
  assumes "kick_loop gauss kicktimestep eta kick_amplitude t i s = Some r"
  shows "kick_loop gauss kicktimestep eta (map ((*) c) kick_amplitude) t i (scale_sim c s) =
           Some (map_sum id (scale_sim c) r)"
proof (rule kick_loop.raw_induct
    [where P = "\<lambda>gauss kicktimestep eta kick_amplitude t i s r.
       kick_loop gauss kicktimestep eta (map ((*) c) kick_amplitude) t i (scale_sim c s) =
         Some (map_sum id (scale_sim c) r)", OF _ assms])
  fix kl :: "('a \<Rightarrow> real \<times> 'a) \<Rightarrow> real \<Rightarrow> real list \<Rightarrow> real list \<Rightarrow> real \<Rightarrow> nat \<Rightarrow> 'a sim \<Rightarrow> (failure + 'a sim) option"
  fix gauss kicktimestep eta kick_amplitude t i s r
  assume IH: "\<And>gauss kicktimestep eta kick_amplitude t i s r.
      kl gauss kicktimestep eta kick_amplitude t i s = Some r \<Longrightarrow>
      kick_loop gauss kicktimestep eta (map ((*) c) kick_amplitude) t i (scale_sim c s) =
         Some (map_sum id (scale_sim c) r)"
  assume body: "(case getitem (next_kicktime s) i of
        Inl e \<Rightarrow> Some (Inl e)
      | Inr nk \<Rightarrow>
          if nk \<le> t then
            (case kick gauss kicktimestep eta kick_amplitude i s of
               Inl e \<Rightarrow> Some (Inl e)
             | Inr s' \<Rightarrow> kl gauss kicktimestep eta kick_amplitude t i s')
          else Some (Inr s)) = Some r"
  show "kick_loop gauss kicktimestep eta (map ((*) c) kick_amplitude) t i (scale_sim c s) =
         Some (map_sum id (scale_sim c) r)"
  proof (cases "getitem (next_kicktime s) i")
    case (Inl e)
    with body show ?thesis by (subst kick_loop.simps) auto
  next
    case nk: (Inr nk)
    show ?thesis
    proof (cases "nk \<le> t")
      case False
      with nk body show ?thesis by (subst kick_loop.simps) auto
    next
      case True
      show ?thesis
      proof (cases "kick gauss kicktimestep eta kick_amplitude i s")
        case (Inl e)
        with nk True body show ?thesis
          by (subst kick_loop.simps) (auto simp: kick_scale)
      next
        case (Inr s1)
        with nk True body
        have "kl gauss kicktimestep eta kick_amplitude t i s1 = Some r" by simp
        from IH [OF this] Inr nk True show ?thesis
          by (subst kick_loop.simps) (simp add: kick_scale)
      qed
    qed
  qed
qed

lemma sample_scale:
  "sample time freq eta j i (scale_sim c s) = map_sum id (scale_sim c) (sample time freq eta j i s)"
proof -
  have v: "c * x + d * (c * a * p + c * b * q) = c * (x + d * (a * p + b * q))" for x d a p b q :: real
    by (simp add: algebra_simps)
  show ?thesis
    unfolding sample_def
    apply (simp add: nd_getitem_scale getitem_map Let_def)
    apply (cases "getitem time j"; simp)
    apply (cases "getitem (last_kicktime s) i"; simp)
    apply (cases "getitem eta i"; simp)
    apply (cases "getitem (signal s) j"; simp)
    apply (cases "nd_getitem (amplsin s) i"; simp)
    apply (cases "getitem freq i"; simp)
    apply (cases "nd_getitem (amplcos s) i"; simp)
    apply (auto simp: v setitem_def scale_sim_def map_update split: if_splits)
    done
qed

lemma mode_step_scale:
  assumes "mode_step gauss kicktimestep time freq eta kick_amplitude j i s = Some r"
  shows "mode_step gauss kicktimestep time freq eta (map ((*) c) kick_amplitude) j i (scale_sim c s) =
           Some (map_sum id (scale_sim c) r)"
proof (cases "getitem time j")
  case (Inl e)
  with assms show ?thesis by (auto simp: mode_step_def)
next
  case (Inr t)
  show ?thesis
  proof (cases "kick_loop gauss kicktimestep eta kick_amplitude t i s")
    case None
    with Inr assms show ?thesis by (simp add: mode_step_def)
  next
    case (Some r1)
    from kick_loop_scale [OF Some, of c] Some Inr assms show ?thesis
      by (cases r1) (auto simp: mode_step_def sample_scale)
  qed
qed

lemma modes_loop_scale:
  "modes_loop gauss kicktimestep time freq eta kick_amplitude j is s = Some r \<Longrightarrow>
   modes_loop gauss kicktimestep time freq eta (map ((*) c) kick_amplitude) j is (scale_sim c s) =
     Some (map_sum id (scale_sim c) r)"
proof (induction "is" arbitrary: s)
  case Nil
  then show ?case by auto
next
  case (Cons i "is")
  show ?case
  proof (cases "mode_step gauss kicktimestep time freq eta kick_amplitude j i s")
    case None
    with Cons.prems show ?thesis by simp
  next
    case (Some r1)
    note ms = mode_step_scale [OF Some, of c]
    show ?thesis
    proof (cases r1)
      case (Inl e)
      with Some ms Cons.prems show ?thesis by auto
    next
      case (Inr s1)
      with Some Cons.prems
      have "modes_loop gauss kicktimestep time freq eta kick_amplitude j is s1 = Some r" by simp
      from Cons.IH [OF this] Inr ms show ?thesis by simp
    qed
  qed
qed

lemma time_loop_scale:
  "time_loop gauss kicktimestep time freq eta kick_amplitude js s = Some r \<Longrightarrow>
   time_loop gauss kicktimestep time freq eta (map ((*) c) kick_amplitude) js (scale_sim c s) =
     Some (map_sum id (scale_sim c) r)"
proof (induction js arbitrary: s)
  case Nil
  then show ?case by auto
next
  case (Cons j js)
  show ?case
  proof (cases "modes_loop gauss kicktimestep time freq eta kick_amplitude j [0..<length freq] s")
    case None
    with Cons.prems show ?thesis by simp
  next
    case (Some r1)
    note ms = modes_loop_scale [OF Some, of c]
    show ?thesis
    proof (cases r1)
      case (Inl e)
      with Some ms Cons.prems show ?thesis by auto
    next
      case (Inr s1)
      with Some Cons.prems
      have "time_loop gauss kicktimestep time freq eta kick_amplitude js s1 = Some r" by simp
      from Cons.IH [OF this] Inr ms show ?thesis by simp
    qed
  qed
qed


lemma broadcast2_map:
  assumes "\<And>x y. f' (p x) (q y) = r (f x y)"
  shows "broadcast2 f' (map p xs) (map q ys) = map_sum id (map r) (broadcast2 f xs ys)"
proof -
  have z: "map2 f' (map p xs) (map q ys) = map r (map2 f xs ys)"
    by (rule nth_equalityI) (simp_all add: assms)
  have hx: "xs \<noteq> [] \<Longrightarrow> hd (map p xs) = p (hd xs)" by (simp add: hd_map)
  have hy: "ys \<noteq> [] \<Longrightarrow> hd (map q ys) = q (hd ys)" by (simp add: hd_map)
  show ?thesis
    unfolding broadcast2_def
    using z by (cases xs; cases ys) (auto simp: assms)
qed

lemma broadcast2_map_left:
  assumes "\<And>x y. f' (p x) y = r (f x y)"
  shows "broadcast2 f' (map p xs) ys = map_sum id (map r) (broadcast2 f xs ys)"
proof -
  have "broadcast2 f' (map p xs) (map (\<lambda>y. y) ys) = map_sum id (map r) (broadcast2 f xs ys)"
    by (rule broadcast2_map) (rule assms)
  then show ?thesis by simp
qed

lemma broadcast2_map_right:
  assumes "\<And>x y. f' x (q y) = r (f x y)"
  shows "broadcast2 f' xs (map q ys) = map_sum id (map r) (broadcast2 f xs ys)"
proof -
  have "broadcast2 f' (map (\<lambda>x. x) xs) (map q ys) = map_sum id (map r) (broadcast2 f xs ys)"
    by (rule broadcast2_map) (rule assms)
  then show ?thesis by simp
qed

lemma derive_params_scale:
  "derive_params (map ((*) c) ampl) eta =
     map_sum id (\<lambda>(k, ka). (k, map ((*) c) ka)) (derive_params ampl eta)"
proof -
  have b: "broadcast2 (*) (map ((*) c) ampl) ys = map_sum id (map ((*) c)) (broadcast2 (*) ampl ys)"
    for ys :: "real list"
    by (rule broadcast2_map_left) simp
  show ?thesis
    unfolding derive_params_def
    apply (cases "py_max eta"; simp add: Let_def b)
    subgoal for mx
      apply (cases "broadcast2 (*) ampl (map (\<lambda>e. sqrt (e / (mx * 100))) eta)")
       apply simp_all
      done
    done
qed

lemma mul_damp_scale: "mul_damp damp (scale_nd c a) = map_sum id (map ((*) c)) (mul_damp damp a)"
proof (cases a)
  case (Scalar x)
  then show ?thesis by (simp add: mul_damp_def scale_nd_def)
next
  case (Array xs)
  have "broadcast2 (*) damp (map ((*) c) xs) = map_sum id (map ((*) c)) (broadcast2 (*) damp xs)"
    by (rule broadcast2_map_right) simp
  with Array show ?thesis by (simp add: mul_damp_def scale_nd_def)
qed

lemma broadcast2_Pair_fst:
  assumes "broadcast2 Pair xs ys = Inr ps" and "i < length ps"
  shows "fst (ps ! i) \<in> set xs"
proof -
  consider (eq) "length xs = length ys" "ps = zip xs ys"
    | (left) "length xs = 1" "ps = map (Pair (hd xs)) ys"
    | (right) "length ys = 1" "ps = map (\<lambda>x. (x, hd ys)) xs"
    using assms(1) by (auto simp: broadcast2_def split: if_splits)
  then show ?thesis
  proof cases
    case eq
    with assms(2) show ?thesis by simp
  next
    case left
    from left(1) have "xs \<noteq> []" by auto
    with left(2) assms(2) show ?thesis by simp
  next
    case right
    with assms(2) show ?thesis by simp
  qed
qed

lemma normal_scale:
  assumes "normal gauss (replicate n 0) scale g = Inr (rs, g')" and "0 \<le> c"
  shows "normal gauss (replicate n 0) (map ((*) c) scale) g = Inr (map ((*) c) rs, g')"
proof -
  from assms(1) have nn: "\<not> (\<exists>s\<in>set scale. s < 0)"
    by (auto simp: normal_def split: if_splits)
  then have nn': "\<not> (\<exists>s\<in>set (map ((*) c) scale). s < 0)"
    using assms(2) by (auto simp: not_less)
  from assms(1) nn obtain ps where ps: "broadcast2 Pair (replicate n (0::real)) scale = Inr ps"
    "draw_each gauss ps g = (rs, g')"
    by (cases "broadcast2 Pair (replicate n (0::real)) scale") (auto simp: normal_def)
  have "broadcast2 Pair (replicate n (0::real)) (map ((*) c) scale) =
          map_sum id (map (\<lambda>(l, s). (l, c * s))) (broadcast2 Pair (replicate n 0) scale)"
    by (rule broadcast2_map_right) simp
  then have ps': "broadcast2 Pair (replicate n 0) (map ((*) c) scale) = Inr (map (\<lambda>(l, s). (l, c * s)) ps)"
    using ps(1) by simp
  have zero: "\<forall>i<length ps. fst (ps ! i) = 0"
  proof (intro allI impI)
    fix i assume "i < length ps"
    from broadcast2_Pair_fst [OF ps(1) this] show "fst (ps ! i) = 0" by simp
  qed
  have "draw_each gauss (map (\<lambda>(l, s). (l, c * s)) ps) g = (map ((*) c) rs, g')"
    using ps(2) zero unfolding draw_each_eq
    by (auto simp: split_beta algebra_simps intro!: nth_equalityI)
  with nn' ps' show ?thesis by (simp add: normal_def)
qed


lemma bindE_eq_Inr: "bindE r f = Inr y \<longleftrightarrow> (\<exists>x. r = Inr x \<and> f x = Inr y)"
  by (cases r) simp_all

lemma bindE_InrE:
  assumes "bindE r f = Inr y"
  obtains x where "r = Inr x" and "f x = Inr y"
  using assms by (cases r) simp_all

lemma warmup_step_scale:
  assumes "warmup_step gauss Nmode damp kick_amplitude (a, b, g) = Inr (a', b', g')" and "0 \<le> c"
  shows "warmup_step gauss Nmode damp (map ((*) c) kick_amplitude) (scale_nd c a, scale_nd c b, g) =
           Inr (scale_nd c a', scale_nd c b', g')"
proof -
  from assms(1) obtain ds ns g1 as dc nc g2 ac where st:
    "mul_damp damp a = Inr ds"
    "normal gauss (replicate Nmode 0) kick_amplitude g = Inr (ns, g1)"
    "broadcast2 (+) ds ns = Inr as"
    "mul_damp damp b = Inr dc"
    "normal gauss (replicate Nmode 0) kick_amplitude g1 = Inr (nc, g2)"
    "broadcast2 (+) dc nc = Inr ac"
    "a' = Array as" "b' = Array ac" "g' = g2"
    unfolding warmup_step_def prod.case
    by (auto elim!: bindE_InrE)
  have add: "broadcast2 (+) (map ((*) c) xs) (map ((*) c) ys) = map_sum id (map ((*) c)) (broadcast2 (+) xs ys)"
    for xs ys :: "real list"
    by (rule broadcast2_map) (simp add: algebra_simps)
  have m1: "mul_damp damp (scale_nd c a) = Inr (map ((*) c) ds)"
    by (simp add: mul_damp_scale st(1))
  have m2: "mul_damp damp (scale_nd c b) = Inr (map ((*) c) dc)"
    by (simp add: mul_damp_scale st(4))
  note n1 = normal_scale [OF st(2) assms(2)] and n2 = normal_scale [OF st(5) assms(2)]
  have a1: "broadcast2 (+) (map ((*) c) ds) (map ((*) c) ns) = Inr (map ((*) c) as)"
    by (simp add: add st(3))
  have a2: "broadcast2 (+) (map ((*) c) dc) (map ((*) c) nc) = Inr (map ((*) c) ac)"
    by (simp add: add st(6))
  show ?thesis
    unfolding warmup_step_def prod.case m1 m2 n1 n2 a1 a2 bindE_Inr
    by (simp add: st(7,8,9) scale_nd_def)
qed

lemma warmup_loop_scale:
  assumes "0 \<le> c"
  shows "warmup_loop gauss Nmode damp kick_amplitude n (a, b, g) = Inr (a', b', g') \<Longrightarrow>
     warmup_loop gauss Nmode damp (map ((*) c) kick_amplitude) n (scale_nd c a, scale_nd c b, g) =
       Inr (scale_nd c a', scale_nd c b', g')"
proof (induction n arbitrary: a b g)
  case 0
  then show ?case by simp
next
  case (Suc n)
  from Suc.prems obtain a1 b1 g1 where s1:
    "warmup_step gauss Nmode damp kick_amplitude (a, b, g) = Inr (a1, b1, g1)"
    "warmup_loop gauss Nmode damp kick_amplitude n (a1, b1, g1) = Inr (a', b', g')"
    by (cases "warmup_step gauss Nmode damp kick_amplitude (a, b, g)") auto
  from warmup_step_scale [OF s1(1) assms] Suc.IH [OF s1(2)] show ?case by simp
qed

lemma warmup_scale:
  assumes "warmup gauss Nmode eta kicktimestep kick_amplitude g = Inr (a, b, g')" and "0 \<le> c"
  shows "warmup gauss Nmode eta kicktimestep (map ((*) c) kick_amplitude) g =
           Inr (scale_nd c a, scale_nd c b, g')"
proof -
  from assms(1) obtain n where n: "Nwarmup eta kicktimestep = Inr n"
    "warmup_loop gauss Nmode (map (\<lambda>e. exp (- e * kicktimestep)) eta) kick_amplitude (nat n)
       (Scalar 0, Scalar 0, g) = Inr (a, b, g')"
    unfolding warmup_def Let_def bindE_eq_Inr by blast
  have z: "scale_nd c (Scalar 0) = Scalar 0" by (simp add: scale_nd_def)
  from warmup_loop_scale [OF assms(2) n(2)] show ?thesis
    unfolding warmup_def Let_def n(1) bindE_Inr z .
qed

lemma prepare_scale:
  assumes "prepare gauss rand g time freq ampl eta = Inr (kicktimestep, kick_amplitude, s0)" and "0 \<le> c"
  shows "prepare gauss rand g time freq (map ((*) c) ampl) eta =
           Inr (kicktimestep, map ((*) c) kick_amplitude, scale_sim c s0)"
proof -
  from assms(1) have d: "derive_params ampl eta = Inr (kicktimestep, kick_amplitude)"
    by (rule prepare_Inr_derive)
  from assms(1) obtain a b g1 lk nk g2 where st:
    "warmup gauss (length freq) eta kicktimestep kick_amplitude g = Inr (a, b, g1)"
    "init_kicks rand time kicktimestep (length freq) g1 = Inr (lk, nk, g2)"
    "s0 = \<lparr>amplsin = a, amplcos = b, last_kicktime = lk, next_kicktime = nk,
            signal = replicate (length time) 0, gen = g2\<rparr>"
    unfolding prepare_def Let_def d bindE_Inr prod.case
    by (auto elim!: bindE_InrE)
  have d': "derive_params (map ((*) c) ampl) eta = Inr (kicktimestep, map ((*) c) kick_amplitude)"
    by (simp add: derive_params_scale d)
  show ?thesis
    unfolding prepare_def Let_def d' bindE_Inr prod.case warmup_scale [OF st(1) assms(2)] st(2)
    by (simp add: st(3) scale_sim_def)
qed

lemma solarosc_Inr:
  assumes "solarosc gauss rand g time freq ampl eta = Some (Inr sig)"
  shows "\<exists>kicktimestep kick_amplitude s0 s.
           prepare gauss rand g time freq ampl eta = Inr (kicktimestep, kick_amplitude, s0) \<and>
           time_loop gauss kicktimestep time freq eta kick_amplitude [0..<length time] s0 = Some (Inr s) \<and>
           sig = signal s"
  using assms
  by (auto simp: solarosc_def split: sum.splits option.splits prod.splits)

lemma solarosc_valid:
  assumes "time \<noteq> []" and "eta \<noteq> []" and "\<forall>e\<in>set eta. 0 < e"
    and "length freq = length eta" and "length ampl = length eta" and "\<forall>a\<in>set ampl. 0 \<le> a"
  shows "\<exists>sig. solarosc gauss rand g time freq ampl eta = Some (Inr sig) \<and> length sig = length time"
proof -
  let ?k = "1 / Max (set eta) / 100"
  from prepare_valid [OF assms, of gauss rand g] obtain ka s0 where p:
    "prepare gauss rand g time freq ampl eta = Inr (?k, ka, s0)"
    "length ka = length eta" "shaped (length eta) (length time) s0"
    by blast
  have kpos: "0 < ?k" using Max_pos [OF assms(2,3)] by simp
  from time_loop_signal [OF kpos refl p(2) assms(4) refl p(3) le_refl, of gauss] obtain s where s:
    "time_loop gauss ?k time freq eta ka [0..<length time] s0 = Some (Inr s)"
    "shaped (length eta) (length time) s"
    by blast
  have "solarosc gauss rand g time freq ampl eta = Some (Inr (signal s))"
    using p(1) s(1) by (rule solarosc_from_prepare)
  moreover have "length (signal s) = length time" using s(2) by (simp add: shaped_def)
  ultimately show ?thesis by blast
qed


subsection \<open>Negative damping rates\<close>


lemma Max_neg: "xs \<noteq> [] \<Longrightarrow> \<forall>e\<in>set xs. e < (0::real) \<Longrightarrow> Max (set xs) < 0"
  by simp

lemma Min_neg: "xs \<noteq> [] \<Longrightarrow> \<forall>e\<in>set xs. e < (0::real) \<Longrightarrow> Min (set xs) < 0"
  by (cases xs) (auto simp: Min_less_iff)

lemma kick_amplitude_nonneg_gen:
  assumes "\<forall>a\<in>set ampl. 0 \<le> a" and "\<forall>e\<in>set eta. 0 \<le> k * e"
  shows "\<forall>s\<in>set (map2 (*) ampl (map (\<lambda>e. sqrt (k * e)) eta)). 0 \<le> s"
proof
  fix s assume "s \<in> set (map2 (*) ampl (map (\<lambda>e. sqrt (k * e)) eta))"
  then obtain a r where ar: "(a, r) \<in> set (zip ampl (map (\<lambda>e. sqrt (k * e)) eta))" "s = a * r"
    by auto
  from ar(1) have "a \<in> set ampl" by (rule set_zip_leftD)
  with assms(1) have a: "0 \<le> a" by blast
  from ar(1) have "r \<in> set (map (\<lambda>e. sqrt (k * e)) eta)" by (rule set_zip_rightD)
  then obtain e where e: "e \<in> set eta" "r = sqrt (k * e)" by auto
  from e(1) assms(2) have "0 \<le> k * e" by blast
  with e(2) have "0 \<le> r" by simp
  with a ar(2) show "0 \<le> s" by simp
qed

lemma derive_params_negative:
  assumes "eta \<noteq> []" and "\<forall>e\<in>set eta. e < 0" and "length ampl = length eta"
  shows "derive_params ampl eta =
           Inr (1 / Max (set eta) / 100,
                map2 (*) ampl (map (\<lambda>e. sqrt (1 / Max (set eta) / 100 * e)) eta))"
proof -
  have mx: "Max (set eta) < 0" using assms(1,2) by (rule Max_neg)
  have nn: "\<not> (\<exists>e\<in>set eta. 1 / Max (set eta) / 100 * e < 0)"
  proof
    assume "\<exists>e\<in>set eta. 1 / Max (set eta) / 100 * e < 0"
    then obtain e where e: "e \<in> set eta" "1 / Max (set eta) / 100 * e < 0" by blast
    from e(1) assms(2) have "e < 0" by blast
    moreover have "1 / Max (set eta) / 100 < 0" using mx by (simp add: divide_neg_pos)
    ultimately have "0 < 1 / Max (set eta) / 100 * e" by (rule mult_neg_neg [rotated])
    with e(2) show False by simp
  qed
  have ne: "Max (set eta) \<noteq> 0" using mx by simp
  show ?thesis
    unfolding derive_params_def py_max_eq [OF assms(1)] bindE_Inr Let_def
    using ne nn assms(3) by (simp only: if_False broadcast2_same length_map bindE_Inr)
qed

lemma kick_loop_diverges:
  assumes run: "kick_loop gauss kicktimestep eta kick_amplitude t i s = Some r"
  shows "\<not> (kicktimestep < 0 \<and> shaped M N s \<and> i < M \<and> length eta = M \<and> length kick_amplitude = M \<and>
            next_kicktime s ! i \<le> t)"
proof (rule kick_loop.raw_induct
    [where P = "\<lambda>gauss kicktimestep eta kick_amplitude t i s r.
       \<not> (kicktimestep < 0 \<and> shaped M N s \<and> i < M \<and> length eta = M \<and> length kick_amplitude = M \<and>
            next_kicktime s ! i \<le> t)", OF _ run])
  fix kl :: "('a \<Rightarrow> real \<times> 'a) \<Rightarrow> real \<Rightarrow> real list \<Rightarrow> real list \<Rightarrow> real \<Rightarrow> nat \<Rightarrow> 'a sim \<Rightarrow> (failure + 'a sim) option"
  fix gauss kicktimestep eta kick_amplitude t i s r
  assume IH: "\<And>gauss kicktimestep eta kick_amplitude t i s r.
      kl gauss kicktimestep eta kick_amplitude t i s = Some r \<Longrightarrow>
      \<not> (kicktimestep < 0 \<and> shaped M N s \<and> i < M \<and> length eta = M \<and> length kick_amplitude = M \<and>
            next_kicktime s ! i \<le> t)"
  assume body: "(case getitem (next_kicktime s) i of
        Inl e \<Rightarrow> Some (Inl e)
      | Inr nk \<Rightarrow>
          if nk \<le> t then
            (case kick gauss kicktimestep eta kick_amplitude i s of
               Inl e \<Rightarrow> Some (Inl e)
             | Inr s' \<Rightarrow> kl gauss kicktimestep eta kick_amplitude t i s')
          else Some (Inr s)) = Some r"
  show "\<not> (kicktimestep < 0 \<and> shaped M N s \<and> i < M \<and> length eta = M \<and> length kick_amplitude = M \<and>
            next_kicktime s ! i \<le> t)"
  proof
    assume a: "kicktimestep < 0 \<and> shaped M N s \<and> i < M \<and> length eta = M \<and> length kick_amplitude = M \<and>
            next_kicktime s ! i \<le> t"
    then have k: "kicktimestep < 0" and sh: "shaped M N s" and i: "i < M" and le: "length eta = M"
      and lk: "length kick_amplitude = M" and nx: "next_kicktime s ! i \<le> t" by simp_all
    have len: "i < length (next_kicktime s)" using sh i by (simp add: shaped_def)
    from kick_props [OF sh i le lk, of gauss kicktimestep] obtain s1 where s1:
      "kick gauss kicktimestep eta kick_amplitude i s = Inr s1" "shaped M N s1"
      "next_kicktime s1 ! i = next_kicktime s ! i + kicktimestep"
      by blast
    from body len nx s1(1) have "kl gauss kicktimestep eta kick_amplitude t i s1 = Some r" by simp
    from IH [OF this] k s1(2) i le lk have "\<not> next_kicktime s1 ! i \<le> t" by simp
    with s1(3) nx k show False by simp
  qed
qed

lemma kick_loop_None:
  assumes "kicktimestep < 0" and "shaped M N s" and "i < M" and "length eta = M"
    and "length kick_amplitude = M" and "next_kicktime s ! i \<le> t"
  shows "kick_loop gauss kicktimestep eta kick_amplitude t i s = None"
proof (cases "kick_loop gauss kicktimestep eta kick_amplitude t i s")
  case None
  then show ?thesis .
next
  case (Some r)
  from kick_loop_diverges [OF Some, of M N] assms show ?thesis by simp
qed

lemma kick_loop_TypeError:
  assumes "amplsin s = Scalar x" and "i < length (next_kicktime s)" and "i < length (last_kicktime s)"
    and "i < length eta" and "next_kicktime s ! i \<le> t"
  shows "kick_loop gauss kicktimestep eta kick_amplitude t i s = Some (Inl TypeError)"
proof -
  have "kick gauss kicktimestep eta kick_amplitude i s = Inl TypeError"
    using assms(1-4) by (simp add: kick_def nd_getitem_def Let_def)
  then show ?thesis using assms(2,5) by (subst kick_loop.simps) simp
qed

lemma run_first_loop:
  assumes "time \<noteq> []" and "freq \<noteq> []"
  shows "time_loop gauss kicktimestep time freq eta kick_amplitude [0..<length time] s0 =
     bindR (kick_loop gauss kicktimestep eta kick_amplitude (time ! 0) 0 s0) (\<lambda>s.
     bindR (Some (sample time freq eta 0 0 s)) (\<lambda>s'.
     bindR (modes_loop gauss kicktimestep time freq eta kick_amplitude 0 [Suc 0..<length freq] s')
       (time_loop gauss kicktimestep time freq eta kick_amplitude [Suc 0..<length time])))"
proof -
  have j: "0 < length time" and i: "0 < length freq" using assms by simp_all
  have p: "state_before_sample gauss kicktimestep time freq eta kick_amplitude 0 0 s0 =
             kick_loop gauss kicktimestep eta kick_amplitude (time ! 0) 0 s0"
    using j by (simp add: state_before_sample_def)
  show ?thesis unfolding run_through_probe [OF j i] p ..
qed


lemma Nwarmup_negative:
  assumes "eta \<noteq> []" and "\<forall>e\<in>set eta. e < 0"
  shows "Nwarmup eta (1 / Max (set eta) / 100) =
           Inr (min 20000 \<lfloor>1 / Min (set eta) / (1 / Max (set eta) / 100)\<rfloor>)"
proof -
  have mx: "Max (set eta) < 0" using assms by (rule Max_neg)
  have mn: "Min (set eta) < 0" using assms by (rule Min_neg)
  have "Min (set eta) \<noteq> 0" "1 / Max (set eta) / 100 \<noteq> 0" using mx mn by simp_all
  then show ?thesis
    unfolding Nwarmup_def py_min_eq [OF assms(1)] bindE_Inr by (simp only: simp_thms if_False)
qed

lemma negative_eta_run:
  assumes t: "time \<noteq> []" and e: "eta \<noteq> []" and neg: "\<forall>e\<in>set eta. e < 0"
    and lf: "length freq = length eta" and la: "length ampl = length eta"
    and nn: "\<forall>a\<in>set ampl. 0 \<le> a" and r0: "\<forall>g. 0 \<le> fst (rand g)"
  shows "\<exists>kick_amplitude s0 n.
           prepare gauss rand g time freq ampl eta = Inr (1 / Max (set eta) / 100, kick_amplitude, s0) \<and>
           Nwarmup eta (1 / Max (set eta) / 100) = Inr n \<and>
           solarosc gauss rand g time freq ampl eta = (if 0 < n then None else Some (Inl TypeError))"
proof -
  let ?k = "1 / Max (set eta) / 100"
  let ?ka = "map2 (*) ampl (map (\<lambda>e. sqrt (?k * e)) eta)"
  let ?M = "length eta" and ?N = "length time"
  let ?n = "min 20000 \<lfloor>1 / Min (set eta) / ?k\<rfloor>"
  let ?damp = "map (\<lambda>e. exp (- e * ?k)) eta"
  have mx: "Max (set eta) < 0" using e neg by (rule Max_neg)
  have kneg: "?k < 0" using mx by (simp add: divide_neg_pos)
  have d: "derive_params ampl eta = Inr (?k, ?ka)" using e neg la by (rule derive_params_negative)
  have ke: "\<forall>e\<in>set eta. 0 \<le> ?k * e"
  proof
    fix x assume "x \<in> set eta"
    with neg have "x < 0" by blast
    with kneg show "0 \<le> ?k * x" by (intro mult_nonpos_nonpos less_imp_le)
  qed
  have kn: "\<forall>s\<in>set ?ka. 0 \<le> s" using nn ke by (rule kick_amplitude_nonneg_gen)
  have lka: "length ?ka = ?M" using la by simp
  have nw: "Nwarmup eta ?k = Inr ?n" using e neg by (rule Nwarmup_negative)
  have Mpos: "0 < ?M" using e by simp
  have fne: "freq \<noteq> []" using lf e by auto
  have w: "\<exists>a b g1. warmup gauss (length freq) eta ?k ?ka g = Inr (a, b, g1) \<and>
             (if 0 < ?n then (\<exists>xs ys. a = Array xs \<and> b = Array ys \<and> length xs = ?M \<and> length ys = ?M)
              else a = Scalar 0 \<and> b = Scalar 0)"
  proof (cases "0 < ?n")
    case True
    then have pos: "0 < nat ?n" by simp
    obtain xs ys g1 where sp:
      "(spec_warmup_step gauss eta ?k ?ka ^^ nat ?n) (replicate ?M 0, replicate ?M 0, g) = (xs, ys, g1)"
      by (cases "(spec_warmup_step gauss eta ?k ?ka ^^ nat ?n) (replicate ?M 0, replicate ?M 0, g)") auto
    have len: "length xs = ?M \<and> length ys = ?M"
      by (rule length_spec_warmup_funpow [OF _ _ sp]) simp_all
    have "warmup_loop gauss ?M ?damp ?ka (nat ?n) (Scalar 0, Scalar 0, g) = Inr (Array xs, Array ys, g1)"
      using warmup_loop_scalar [OF refl refl lka kn pos, of gauss ?k g] sp by simp
    then have "warmup gauss (length freq) eta ?k ?ka g = Inr (Array xs, Array ys, g1)"
      unfolding warmup_def Let_def nw bindE_Inr lf .
    with len True show ?thesis by auto
  next
    case False
    then have z: "nat ?n = 0" by simp
    have "warmup gauss (length freq) eta ?k ?ka g = Inr (Scalar 0, Scalar 0, g)"
      unfolding warmup_def Let_def nw bindE_Inr z by simp
    with False show ?thesis by auto
  qed
  then obtain a b g1 where wab: "warmup gauss (length freq) eta ?k ?ka g = Inr (a, b, g1)"
    and shape: "if 0 < ?n then (\<exists>xs ys. a = Array xs \<and> b = Array ys \<and> length xs = ?M \<and> length ys = ?M)
              else a = Scalar 0 \<and> b = Scalar 0"
    by blast
  from init_kicks_valid [OF t, of rand ?k "length freq" g1] obtain lk g2 where ik:
    "init_kicks rand time ?k (length freq) g1 = Inr (lk, map (\<lambda>l. l + ?k) lk, g2)"
    "length lk = length freq"
    "\<forall>i<length freq. \<exists>g''. lk ! i = time ! 0 - ?k + ?k * fst (rand g'')"
    by blast
  let ?s0 = "\<lparr>amplsin = a, amplcos = b, last_kicktime = lk,
              next_kicktime = map (\<lambda>l. l + ?k) lk, signal = replicate ?N 0, gen = g2\<rparr>"
  have p: "prepare gauss rand g time freq ampl eta = Inr (?k, ?ka, ?s0)"
    unfolding prepare_def Let_def d bindE_Inr prod.case wab ik(1) by (rule refl)
  have lk0: "0 < length lk" using ik(2) lf Mpos by simp
  from ik(3) lf Mpos obtain g'' where g'': "lk ! 0 = time ! 0 - ?k + ?k * fst (rand g'')" by auto
  have u0: "0 \<le> fst (rand g'')" using r0 by simp
  have kle: "?k \<le> 0" using kneg by (rule less_imp_le)
  have "?k * fst (rand g'') \<le> 0" using kle u0 by (rule mult_nonpos_nonneg)
  then have due: "next_kicktime ?s0 ! 0 \<le> time ! 0" using lk0 g'' by simp
  have loop: "kick_loop gauss ?k eta ?ka (time ! 0) 0 ?s0 = (if 0 < ?n then None else Some (Inl TypeError))"
  proof (cases "0 < ?n")
    case True
    with shape obtain xs ys where "a = Array xs" "b = Array ys" "length xs = ?M" "length ys = ?M"
      by auto
    then have sh: "shaped ?M ?N ?s0" using ik(2) lf by (simp add: shaped_def)
    from kick_loop_None [OF kneg sh Mpos refl lka due, of gauss] True show ?thesis by simp
  next
    case False
    with shape have a: "amplsin ?s0 = Scalar 0" by simp
    have l1: "0 < length (next_kicktime ?s0)" and l2: "0 < length (last_kicktime ?s0)"
      using lk0 by simp_all
    from kick_loop_TypeError [OF a l1 l2 Mpos due, of gauss ?k ?ka] False show ?thesis by simp
  qed
  have tl: "time_loop gauss ?k time freq eta ?ka [0..<?N] ?s0 = (if 0 < ?n then None else Some (Inl TypeError))"
    unfolding run_first_loop [OF t fne] loop by simp
  have "solarosc gauss rand g time freq ampl eta = (if 0 < ?n then None else Some (Inl TypeError))"
    unfolding solarosc_def p using tl by simp
  with p nw show ?thesis by blast
qed

subsection \<open>Degenerate inputs\<close>


lemma solarosc_no_modes: "solarosc gauss rand g time freq ampl [] = Some (Inl ValueError)"
  by (simp add: solarosc_def prepare_def derive_params_def py_max_def)

lemma prepare_no_times: "\<exists>e. prepare gauss rand g [] freq ampl eta = Inl e"
proof (cases "derive_params ampl eta")
  case (Inl e)
  then show ?thesis by (simp add: prepare_def)
next
  case (Inr ka)
  obtain k a where ka: "ka = (k, a)" by (cases ka)
  show ?thesis
  proof (cases "warmup gauss (length freq) eta k a g")
    case (Inl e)
    with Inr ka show ?thesis by (simp add: prepare_def)
  next
    case w: (Inr st)
    obtain x y g1 where st: "st = (x, y, g1)" by (cases st)
    have "init_kicks rand [] k (length freq) g1 = Inl IndexError"
      by (simp add: init_kicks_def getitem_def)
    with Inr ka w st show ?thesis by (simp add: prepare_def)
  qed
qed

lemma prepare_no_times_valid:
  assumes e: "eta \<noteq> []" and pos: "\<forall>e\<in>set eta. 0 < e"
    and lf: "length freq = length eta" and la: "length ampl = length eta"
    and nn: "\<forall>a\<in>set ampl. 0 \<le> a"
  shows "prepare gauss rand g [] freq ampl eta = Inl IndexError"
proof -
  let ?k = "1 / Max (set eta) / 100"
  let ?ka = "map2 (*) ampl (map (\<lambda>e. sqrt (?k * e)) eta)"
  have kpos: "0 < ?k" using Max_pos [OF e pos] by simp
  have d: "derive_params ampl eta = Inr (?k, ?ka)" using e pos la by (rule derive_params_valid)
  have kn: "\<forall>s\<in>set ?ka. 0 \<le> s" using nn pos kpos by (rule kick_amplitude_nonneg)
  have lka: "length ?ka = length eta" using la by simp
  obtain a b g1 where sp:
    "(spec_warmup_step gauss eta ?k ?ka ^^ nat (min 20000 \<lfloor>1 / (Min (set eta) * ?k)\<rfloor>))
       (replicate (length freq) 0, replicate (length freq) 0, g) = (a, b, g1)"
    by (cases "(spec_warmup_step gauss eta ?k ?ka ^^ nat (min 20000 \<lfloor>1 / (Min (set eta) * ?k)\<rfloor>))
       (replicate (length freq) 0, replicate (length freq) 0, g)") auto
  have w: "warmup gauss (length freq) eta ?k ?ka g = Inr (Array a, Array b, g1)"
    using warmup_valid [OF e pos lka kn lf refl, of gauss g] sp by simp
  have i: "init_kicks rand [] ?k (length freq) g1 = Inl IndexError"
    by (simp add: init_kicks_def getitem_def)
  show ?thesis
    unfolding prepare_def Let_def d bindE_Inr prod.case w i bindE_Inl by (rule refl)
qed


section \<open>Facts about the binary64 model\<close>

subsection \<open>Rounding\<close>


lemma round_even_near: "\<bar>of_int (round_even x) - x\<bar> \<le> 1 / 2"
proof -
  have "of_int \<lfloor>x\<rfloor> \<le> x" "x < of_int \<lfloor>x\<rfloor> + 1" by linarith+
  then show ?thesis
    by (auto simp: round_even_def Let_def)
qed

lemma round_even_eqI:
  assumes "of_int n - 1 / 2 < x" and "x < of_int n + 1 / 2"
  shows "round_even x = n"
proof -
  have a: "\<bar>of_int (round_even x) - x\<bar> \<le> 1 / 2" by (rule round_even_near)
  have "\<bar>of_int (round_even x) - of_int n :: real\<bar> < 1" using a assms by linarith
  then have "\<bar>of_int (round_even x - n) :: real\<bar> < 1" by simp
  then have "\<bar>round_even x - n\<bar> < 1" by linarith
  then show ?thesis by simp
qed

lemma round_even_of_int [simp]: "round_even (of_int n) = n"
  by (rule round_even_eqI) simp_all

lemma round_even_tie:
  assumes "x = of_int n + 1 / 2"
  shows "round_even x = (if even n then n else n + 1)"
proof -
  have "\<lfloor>x\<rfloor> = n" unfolding assms by (simp add: floor_eq_iff)
  then show ?thesis by (simp add: round_even_def Let_def assms)
qed

lemma round_even_ge:
  assumes "of_int k \<le> x"
  shows "k \<le> round_even x"
proof -
  have a: "\<bar>of_int (round_even x) - x\<bar> \<le> 1 / 2" by (rule round_even_near)
  have "of_int k - 1 < (of_int (round_even x) :: real)" using a assms by linarith
  then have "of_int (k - 1) < (of_int (round_even x) :: real)" by simp
  then have "k - 1 < round_even x" by (simp only: of_int_less_iff)
  then show ?thesis by simp
qed

lemma round_even_le:
  assumes "x \<le> of_int k"
  shows "round_even x \<le> k"
proof -
  have a: "\<bar>of_int (round_even x) - x\<bar> \<le> 1 / 2" by (rule round_even_near)
  have "(of_int (round_even x) :: real) < of_int k + 1" using a assms by linarith
  then have "(of_int (round_even x) :: real) < of_int (k + 1)" by simp
  then have "round_even x < k + 1" by (simp only: of_int_less_iff)
  then show ?thesis by simp
qed

lemma quantum_pos [simp]: "0 < quantum a"
  by (simp add: quantum_def)

lemma quantum_binade:
  assumes "2 powr of_int e \<le> a" and "a < 2 powr (of_int e + 1)" and "- 1022 \<le> e"
  shows "quantum a = 2 powr (of_int e - 52)"
proof -
  have "0 < (2::real) powr of_int e" by simp
  with assms(1) have a: "0 < a" by linarith
  have "\<lfloor>log 2 a\<rfloor> = e" using a assms(1,2) by (simp add: floor_log_eq_powr_iff)
  then show ?thesis using assms(3) by (simp add: quantum_def max_def)
qed

lemma rnd_mag_eqI:
  assumes "quantum a = q" and "a \<noteq> 0" and "\<bar>a - of_int n * q\<bar> < q / 2"
  shows "rnd_mag a = of_int n * q"
proof -
  have q: "0 < q" using assms(1) quantum_pos [of a] by simp
  have "\<bar>a / q - of_int n\<bar> < 1 / 2"
  proof -
    have "\<bar>a / q - of_int n\<bar> = \<bar>a - of_int n * q\<bar> / q"
      using q by (simp add: field_simps abs_mult abs_divide)
    also have "\<dots> < (q / 2) / q" using assms(3) q by (simp add: divide_strict_right_mono)
    also have "\<dots> = 1 / 2" using q by simp
    finally show ?thesis .
  qed
  then have "round_even (a / q) = n" by (intro round_even_eqI) linarith+
  then show ?thesis using assms(1,2) by (simp add: rnd_mag_def)
qed

lemma rnd_mag_exact:
  assumes "quantum a = q" and "a = of_int n * q"
  shows "rnd_mag a = a"
proof (cases "a = 0")
  case True
  then show ?thesis by (simp add: rnd_mag_def)
next
  case False
  have q: "0 < q" using assms(1) quantum_pos [of a] by simp
  have "\<bar>a - of_int n * q\<bar> < q / 2" using assms(2) q by simp
  from rnd_mag_eqI [OF assms(1) False this] assms(2) show ?thesis by simp
qed

lemma rnd_mag_binade:
  assumes lo: "2 powr of_int e \<le> a" and hi: "a < 2 powr (of_int e + 1)" and e: "- 1022 \<le> e"
  shows "2 powr of_int e \<le> rnd_mag a" and "rnd_mag a \<le> 2 powr (of_int e + 1)"
    and "\<bar>rnd_mag a - a\<bar> \<le> 2 powr (of_int e - 53)"
proof -
  let ?q = "2 powr (of_int e - 52) :: real"
  have q: "quantum a = ?q" using lo hi e by (rule quantum_binade)
  have qpos: "0 < ?q" by simp
  have a0: "a \<noteq> 0" using lo powr_gt_zero [of 2 "of_int e"] by auto
  have r: "rnd_mag a = of_int (round_even (a / ?q)) * ?q" using a0 q by (simp add: rnd_mag_def)
  have s52: "2 powr of_int e = (2 ^ 52) * ?q"
    by (simp add: powr_diff)
  have s53: "2 powr (of_int e + 1) = (2 ^ 53) * ?q"
    by (simp add: powr_diff powr_add)
  have l: "(of_int (2 ^ 52) :: real) \<le> a / ?q"
    using lo qpos unfolding s52 by (simp add: pos_le_divide_eq)
  have u: "a / ?q \<le> (of_int (2 ^ 53) :: real)"
    using hi qpos unfolding s53 by (simp add: pos_divide_le_eq)
  from round_even_ge [OF l] have "(2 ^ 52 :: real) \<le> of_int (round_even (a / ?q))"
    by (metis of_int_le_iff of_int_numeral of_int_power)
  then have "(2 ^ 52) * ?q \<le> of_int (round_even (a / ?q)) * ?q"
    using qpos by (intro mult_right_mono) simp_all
  then show "2 powr of_int e \<le> rnd_mag a" unfolding r s52 .
  from round_even_le [OF u] have "of_int (round_even (a / ?q)) \<le> (2 ^ 53 :: real)"
    by (metis of_int_le_iff of_int_numeral of_int_power)
  then have "of_int (round_even (a / ?q)) * ?q \<le> (2 ^ 53) * ?q"
    using qpos by (intro mult_right_mono) simp_all
  then show "rnd_mag a \<le> 2 powr (of_int e + 1)" unfolding r s53 .
  have "\<bar>of_int (round_even (a / ?q)) - a / ?q\<bar> \<le> 1 / 2" by (rule round_even_near)
  then have "\<bar>of_int (round_even (a / ?q)) - a / ?q\<bar> * ?q \<le> (1 / 2) * ?q"
    using qpos by (intro mult_right_mono) simp_all
  moreover have "\<bar>of_int (round_even (a / ?q)) - a / ?q\<bar> * ?q = \<bar>rnd_mag a - a\<bar>"
  proof -
    have "\<bar>of_int (round_even (a / ?q)) - a / ?q\<bar> * ?q
            = \<bar>(of_int (round_even (a / ?q)) - a / ?q) * ?q\<bar>"
      using qpos by (simp add: abs_mult)
    also have "(of_int (round_even (a / ?q)) - a / ?q) * ?q = rnd_mag a - a"
      unfolding r using qpos by (simp add: left_diff_distrib)
    finally show ?thesis .
  qed
  moreover have "(1 / 2) * ?q = 2 powr (of_int e - 53)"
    by (simp add: powr_diff)
  ultimately show "\<bar>rnd_mag a - a\<bar> \<le> 2 powr (of_int e - 53)" by simp
qed




lemma binade_exists:
  assumes "0 < a"
  shows "2 powr of_int \<lfloor>log 2 a\<rfloor> \<le> a \<and> a < 2 powr (of_int \<lfloor>log 2 a\<rfloor> + 1)"
  using assms floor_log_eq_powr_iff [of a 2 "\<lfloor>log 2 a\<rfloor>"] by simp

lemma binade_ge:
  assumes "2 powr of_int p \<le> a"
  shows "p \<le> \<lfloor>log 2 a\<rfloor>"
proof -
  have "0 < (2::real) powr of_int p" by simp
  with assms have a: "0 < a" by linarith
  have "of_int p \<le> log 2 a" using a assms by (simp add: le_log_iff)
  then show ?thesis by (simp add: le_floor_iff)
qed

lemma rnd_mag_bounds:
  assumes lo: "2 powr of_int p \<le> a" and hi: "a \<le> 2 powr of_int r" and p: "- 1022 \<le> p"
  shows "2 powr of_int p \<le> rnd_mag a" and "rnd_mag a \<le> 2 powr of_int r"
proof -
  have "0 < (2::real) powr of_int p" by simp
  with lo have a: "0 < a" by linarith
  let ?e = "\<lfloor>log 2 a\<rfloor>"
  from binade_exists [OF a] have b: "2 powr of_int ?e \<le> a" "a < 2 powr (of_int ?e + 1)" by simp_all
  have pe: "p \<le> ?e" using lo by (rule binade_ge)
  have e: "- 1022 \<le> ?e" using p pe by (rule order_trans)
  note rb = rnd_mag_binade [OF b e]
  have pp: "2 powr of_int p \<le> (2::real) powr of_int ?e" using pe by simp
  from pp rb(1) show "2 powr of_int p \<le> rnd_mag a" by (rule order_trans)
  show "rnd_mag a \<le> 2 powr of_int r"
  proof (cases "a = 2 powr of_int r")
    case True
    have "quantum a = 2 powr (of_int ?e - 52)" using b e by (rule quantum_binade)
    have er: "?e = r" unfolding True by simp
    have "a = of_int (2 ^ 52) * 2 powr (of_int ?e - 52)"
      unfolding er True by (simp add: powr_diff)
    from rnd_mag_exact [OF \<open>quantum a = 2 powr (of_int ?e - 52)\<close> this] True show ?thesis by simp
  next
    case False
    with hi have "a < 2 powr of_int r" by simp
    with b(1) have "2 powr of_int ?e < (2::real) powr of_int r" by linarith
    then have "?e < r" by simp
    then have "of_int ?e + 1 \<le> (of_int r :: real)" by linarith
    then have "2 powr (of_int ?e + 1) \<le> (2::real) powr of_int r" by simp
    with rb(2) show ?thesis by (rule order_trans)
  qed
qed

lemma rnd_mag_rel:
  assumes "2 powr (- 1022) \<le> a"
  shows "\<bar>rnd_mag a - a\<bar> \<le> a / 2 ^ 53"
proof -
  have "0 < (2::real) powr (- 1022)" by simp
  with assms have a: "0 < a" by linarith
  let ?e = "\<lfloor>log 2 a\<rfloor>"
  from binade_exists [OF a] have b: "2 powr of_int ?e \<le> a" "a < 2 powr (of_int ?e + 1)" by simp_all
  have "2 powr of_int (- 1022) \<le> a" using assms by simp
  then have e: "- 1022 \<le> ?e" by (rule binade_ge)
  from rnd_mag_binade(3) [OF b e] have "\<bar>rnd_mag a - a\<bar> \<le> 2 powr (of_int ?e - 53)" .
  also have "\<dots> = 2 powr of_int ?e / 2 ^ 53" by (simp add: powr_diff)
  also have "\<dots> \<le> a / 2 ^ 53" using b(1) by (simp add: divide_right_mono)
  finally show ?thesis .
qed

lemma rnd_mag_nonneg: "0 \<le> a \<Longrightarrow> 0 \<le> rnd_mag a"
proof -
  assume a: "0 \<le> a"
  have "0 < quantum a" by simp
  then have "0 \<le> a / quantum a" using a by (intro divide_nonneg_pos)
  then have "(of_int 0 :: real) \<le> a / quantum a" by simp
  from round_even_ge [OF this] have "0 \<le> round_even (a / quantum a)" .
  then have r: "(0::real) \<le> of_int (round_even (a / quantum a))" by simp
  have q: "0 \<le> quantum a" using \<open>0 < quantum a\<close> by (rule less_imp_le)
  from r q have "0 \<le> of_int (round_even (a / quantum a)) * quantum a"
    by (rule mult_nonneg_nonneg)
  then show ?thesis by (simp add: rnd_mag_def)
qed

lemma quantum_pos_exp:
  assumes "2 ^ e \<le> a" and "a < 2 ^ Suc e"
  shows "quantum a = 2 ^ e / 2 ^ 52"
proof -
  have 1: "2 powr of_int (int e) \<le> a" using assms(1) by (simp add: powr_realpow)
  have "(2::real) powr (of_int (int e) + 1) = 2 ^ Suc e"
    by (simp add: powr_add powr_realpow)
  then have 2: "a < 2 powr (of_int (int e) + 1)" using assms(2) by simp
  have "quantum a = 2 powr (of_int (int e) - 52)" using 1 2 by (rule quantum_binade) simp
  then show ?thesis by (simp add: powr_diff powr_realpow)
qed

lemma quantum_neg_exp:
  assumes "1 / 2 ^ e \<le> a" and "a < 2 / 2 ^ e" and "e \<le> 1022"
  shows "quantum a = 1 / (2 ^ e * 2 ^ 52)"
proof -
  have p: "(2::real) powr of_int (- int e) = 1 / 2 ^ e"
    by (simp add: powr_minus_divide powr_realpow)
  have 1: "2 powr of_int (- int e) \<le> a" using assms(1) unfolding p .
  have "(2::real) powr (of_int (- int e) + 1) = 2 powr of_int (- int e) * 2 powr 1"
    by (rule powr_add)
  then have "(2::real) powr (of_int (- int e) + 1) = 2 / 2 ^ e"
    unfolding p by simp
  then have 2: "a < 2 powr (of_int (- int e) + 1)" using assms(2) by simp
  have "quantum a = 2 powr (of_int (- int e) - 52)" using 1 2 by (rule quantum_binade) (use assms(3) in simp)
  also have "\<dots> = 2 powr of_int (- int e) / 2 powr 52" by (rule powr_diff)
  also have "\<dots> = 1 / (2 ^ e * 2 ^ 52)" unfolding p by simp
  finally show ?thesis .
qed

lemma mk_Fin:
  assumes "rnd_mag a < 2 ^ 1024"
  shows "mk s a = Fin s (rnd_mag a)"
  using assms by (simp add: mk_def Let_def)

lemma mk_zero [simp]: "mk s 0 = Fin s 0"
  by (simp add: mk_def rnd_mag_def)

subsection \<open>The warm-up count at the damping rate 79\<close>


lemma mk_evalI:
  assumes "quantum a = q" and "a \<noteq> 0" and "\<bar>a - of_int n * q\<bar> < q / 2" and "of_int n * q < 2 ^ 1024"
  shows "mk s a = Fin s (of_int n * q)"
proof -
  have "rnd_mag a = of_int n * q" using assms(1-3) by (rule rnd_mag_eqI)
  then show ?thesis using assms(4) by (simp add: mk_def Let_def)
qed

lemma py_max64_single [simp]: "py_max64 [x] = Inr x"
  by (simp add: py_max64_def)

lemma py_min64_single [simp]: "py_min64 [x] = Inr x"
  by (simp add: py_min64_def)

lemma recip79: "fdiv one64 (Fin False 79) = Fin False (7296971548144601 / 2 ^ 59)"
proof -
  have q: "quantum (1 / 79) = 1 / (2 ^ 7 * 2 ^ 52)"
    by (rule quantum_neg_exp) simp_all
  have "mk False (1 / 79) = Fin False (of_int 7296971548144601 * (1 / (2 ^ 7 * 2 ^ 52)))"
    by (rule mk_evalI [OF q]) simp_all
  then show ?thesis by simp
qed

lemma kts79: "fdiv (Fin False (7296971548144601 / 2 ^ 59)) hundred64 = Fin False (4670061790812545 / 2 ^ 65)"
proof -
  have q: "quantum (7296971548144601 / 2 ^ 59 / 100) = 1 / (2 ^ 13 * 2 ^ 52)"
    by (rule quantum_neg_exp) simp_all
  have "mk False (7296971548144601 / 2 ^ 59 / 100) = Fin False (of_int 4670061790812545 * (1 / (2 ^ 13 * 2 ^ 52)))"
    by (rule mk_evalI [OF q]) simp_all
  then show ?thesis by simp
qed

lemma quot79:
  "fdiv (Fin False (7296971548144601 / 2 ^ 59)) (Fin False (4670061790812545 / 2 ^ 65)) =
     Fin False (7036874417766399 / 2 ^ 46)"
proof -
  have q: "quantum (7296971548144601 / 2 ^ 59 / (4670061790812545 / 2 ^ 65)) = 2 ^ 6 / 2 ^ 52"
    by (rule quantum_pos_exp) simp_all
  have "mk False (7296971548144601 / 2 ^ 59 / (4670061790812545 / 2 ^ 65)) =
          Fin False (of_int 7036874417766399 * (2 ^ 6 / 2 ^ 52))"
    by (rule mk_evalI [OF q]) simp_all
  then show ?thesis by simp
qed

lemma Nwarmup64_79:
  "derive_params64 [a] [Fin False 79] = Inr (Fin False (4670061790812545 / 2 ^ 65),
      [fmul a (fsqrt (fmul (Fin False (4670061790812545 / 2 ^ 65)) (Fin False 79)))])"
  "Nwarmup64 [Fin False 79] (Fin False (4670061790812545 / 2 ^ 65)) = Inr 99"
proof -
  show "derive_params64 [a] [Fin False 79] = Inr (Fin False (4670061790812545 / 2 ^ 65),
      [fmul a (fsqrt (fmul (Fin False (4670061790812545 / 2 ^ 65)) (Fin False 79)))])"
    unfolding derive_params64_def py_max64_single bindE_Inr Let_def recip79 kts79
    by (simp add: broadcast2_def)
  have fl: "\<lfloor>7036874417766399 / 2 ^ 46 :: real\<rfloor> = 99"
    by (simp add: floor_eq_iff)
  show "Nwarmup64 [Fin False 79] (Fin False (4670061790812545 / 2 ^ 65)) = Inr 99"
    unfolding Nwarmup64_def py_min64_single bindE_Inr recip79 quot79
    by (simp add: py_floor_def val_def fl)
qed

subsection \<open>Minimum, maximum and rounded quotients\<close>

lemma moderateE:
  assumes "moderate x"
  obtains m where "x = Fin False m" and "2 powr of_int (- 500) \<le> m" and "m \<le> 2 powr of_int 500"
proof -
  from assms obtain s m where x: "x = Fin s m" by (cases x) (auto simp: moderate_def)
  have p1: "(2::real) powr of_int (- 500) = 1 / 2 ^ 500"
    by (simp add: powr_minus_divide powr_realpow)
  have p2: "(2::real) powr of_int 500 = 2 ^ 500" by (simp add: powr_realpow)
  from assms x have "x = Fin False m" "1 / 2 ^ 500 \<le> m" "m \<le> 2 ^ 500"
    by (simp_all add: moderate_def)
  then show thesis using that [of m] p1 p2 by simp
qed

lemma fold_max64_mem:
  "fold (\<lambda>item acc. if flt acc item then item else acc) r x \<in> set (x # r)"
proof (induction r arbitrary: x)
  case Nil
  then show ?case by simp
next
  case (Cons y r)
  from Cons [of "if flt x y then y else x"] show ?case by (auto split: if_splits)
qed

lemma fold_min64_mem:
  "fold (\<lambda>item acc. if flt item acc then item else acc) r x \<in> set (x # r)"
proof (induction r arbitrary: x)
  case Nil
  then show ?case by simp
next
  case (Cons y r)
  from Cons [of "if flt y x then y else x"] show ?case by (auto split: if_splits)
qed

lemma fold_max64_ge:
  assumes "\<forall>e\<in>set (x # r). \<exists>m. e = Fin False m"
  shows "\<forall>e\<in>set (x # r). val e \<le> val (fold (\<lambda>item acc. if flt acc item then item else acc) r x)"
  using assms
proof (induction r arbitrary: x)
  case Nil
  then show ?case by simp
next
  case (Cons y r)
  let ?x' = "if flt x y then y else x"
  from Cons.prems obtain a b where x: "x = Fin False a" and y: "y = Fin False b" by auto
  have x': "\<forall>e\<in>set (?x' # r). \<exists>m. e = Fin False m" using Cons.prems by auto
  from Cons.IH [OF x']
  have ih: "\<forall>e\<in>set (?x' # r). val e \<le> val (fold (\<lambda>item acc. if flt acc item then item else acc) r ?x')" .
  have xx: "val x \<le> val ?x'" "val y \<le> val ?x'" using x y by (auto simp: val_def)
  have top: "val ?x' \<le> val (fold (\<lambda>item acc. if flt acc item then item else acc) r ?x')"
    using ih by simp
  show ?case
  proof
    fix e assume "e \<in> set (x # y # r)"
    then consider "e = x" | "e = y" | "e \<in> set r" by auto
    then show "val e \<le> val (fold (\<lambda>item acc. if flt acc item then item else acc) (y # r) x)"
    proof cases
      case 1 then show ?thesis using xx(1) top by simp
    next
      case 2 then show ?thesis using xx(2) top by simp
    next
      case 3 then show ?thesis using ih by simp
    qed
  qed
qed

lemma py_max64_moderate:
  assumes "eta \<noteq> []" and "\<forall>e\<in>set eta. moderate e"
  obtains mx where "py_max64 eta = Inr mx" and "mx \<in> set eta" and "\<forall>e\<in>set eta. val e \<le> val mx"
proof -
  from assms(1) obtain x r where eta: "eta = x # r" by (cases eta) auto
  let ?mx = "fold (\<lambda>item acc. if flt acc item then item else acc) r x"
  have 1: "py_max64 eta = Inr ?mx" by (simp add: py_max64_def eta)
  have 2: "?mx \<in> set eta" unfolding eta by (rule fold_max64_mem)
  have "\<forall>e\<in>set (x # r). \<exists>m. e = Fin False m"
    using assms(2) unfolding eta by (auto elim: moderateE)
  from fold_max64_ge [OF this] have 3: "\<forall>e\<in>set eta. val e \<le> val ?mx" unfolding eta .
  from 1 2 3 show thesis by (rule that)
qed

lemma py_min64_mem:
  assumes "eta \<noteq> []"
  obtains mn where "py_min64 eta = Inr mn" and "mn \<in> set eta"
proof -
  from assms(1) obtain x r where eta: "eta = x # r" by (cases eta) auto
  let ?mn = "fold (\<lambda>item acc. if flt item acc then item else acc) r x"
  have 1: "py_min64 eta = Inr ?mn" by (simp add: py_min64_def eta)
  have 2: "?mn \<in> set eta" unfolding eta by (rule fold_min64_mem)
  from 1 2 show thesis by (rule that)
qed

lemma py_max64_mem:
  assumes "eta \<noteq> []"
  obtains mx where "py_max64 eta = Inr mx" and "mx \<in> set eta"
proof -
  from assms(1) obtain x r where eta: "eta = x # r" by (cases eta) auto
  let ?mx = "fold (\<lambda>item acc. if flt acc item then item else acc) r x"
  have 1: "py_max64 eta = Inr ?mx" by (simp add: py_max64_def eta)
  have 2: "?mx \<in> set eta" unfolding eta by (rule fold_max64_mem)
  from 1 2 show thesis by (rule that)
qed

text \<open>A rounded positive quotient within the normal range.\<close>

lemma mk_rel:
  assumes "2 powr of_int p \<le> a" and "a \<le> 2 powr of_int r" and "- 1022 \<le> p" and "r < 1024"
  shows "mk s a = Fin s (rnd_mag a)" and "2 powr of_int p \<le> rnd_mag a" and "rnd_mag a \<le> 2 powr of_int r"
    and "a * (1 - 1 / 2 ^ 53) \<le> rnd_mag a" and "rnd_mag a \<le> a * (1 + 1 / 2 ^ 53)"
proof -
  from rnd_mag_bounds [OF assms(1,2,3)]
  show b: "2 powr of_int p \<le> rnd_mag a" "rnd_mag a \<le> 2 powr of_int r" by simp_all
  have "real_of_int r < real_of_int 1024" using assms(4) by linarith
  then have "(2::real) powr of_int r < 2 powr of_int 1024" by (intro powr_less_mono) simp_all
  moreover have "(2::real) powr of_int 1024 = 2 ^ 1024"
    using powr_realpow [of "2::real" 1024] by simp
  ultimately have "rnd_mag a < 2 ^ 1024" using b(2) by linarith
  then show "mk s a = Fin s (rnd_mag a)" by (rule mk_Fin)
  have "(2::real) powr (- 1022) \<le> 2 powr of_int p" using assms(3) by simp
  then have "2 powr (- 1022) \<le> a" using assms(1) by linarith
  from rnd_mag_rel [OF this] have "\<bar>rnd_mag a - a\<bar> \<le> a / 2 ^ 53" .
  then have "rnd_mag a - a \<le> a / 2 ^ 53" "- (a / 2 ^ 53) \<le> rnd_mag a - a" by linarith+
  then show "a * (1 - 1 / 2 ^ 53) \<le> rnd_mag a" "rnd_mag a \<le> a * (1 + 1 / 2 ^ 53)"
    by (simp_all add: algebra_simps)
qed

section \<open>The claims\<close>

subsection \<open>Claim C5\<close>




subsection \<open>Claim C6\<close>



subsection \<open>Claim C8\<close>

text \<open>
  Claim C8. The sampling step of lines 149 to 152 changes nothing but \<open>signal[j]\<close>:
  both quadrature components, both kick clocks and the generator state are what they
  were, and so is every other entry of the signal.
\<close>

theorem C8_sample_frame:
  assumes "sample time freq eta j i s = Inr s'"
  shows "amplsin s' = amplsin s \<and> amplcos s' = amplcos s \<and>
         last_kicktime s' = last_kicktime s \<and> next_kicktime s' = next_kicktime s \<and>
         gen s' = gen s \<and> length (signal s') = length (signal s) \<and>
         (\<forall>m. m \<noteq> j \<longrightarrow> signal s' ! m = signal s ! m)"
  using assms
  by (auto simp: sample_def bindE_def getitem_def setitem_def Let_def split: sum.splits if_splits)

text \<open>Claim C8 at a state with one mode and one output time.\<close>

theorem C8_witness:
  "\<exists>s'. sample [0] [1] [1] 0 0
           \<lparr>amplsin = Array [1], amplcos = Array [0], last_kicktime = [0], next_kicktime = [1],
            signal = [0], gen = (0::nat)\<rparr> = Inr s' \<and>
        amplsin s' = Array [1] \<and> amplcos s' = Array [0] \<and>
        last_kicktime s' = [0] \<and> next_kicktime s' = [1] \<and> gen s' = 0"
proof -
  let ?s = "\<lparr>amplsin = Array [1], amplcos = Array [0], last_kicktime = [0], next_kicktime = [1],
            signal = [0], gen = (0::nat)\<rparr>"
  have sh: "shaped 1 1 ?s" by (simp add: shaped_def)
  have r: "sample [0] [1] [1] 0 0 ?s =
      Inr (?s\<lparr>signal := (signal ?s)[0 := signal ?s ! 0 + contribution [0] [1] [1] 0 ?s 0]\<rparr>)"
    by (rule sample_shaped [OF sh]) simp_all
  from C8_sample_frame [OF r] r show ?thesis by simp
qed


end
